theory Spec2Isabelle
  imports
    Complex_Main
    "HOL-Library.Word"
    "HOL-Library.AList"
    "HOL-Library.Sublist"
    "HOL-Library.List_Lexorder"
    "HOL-Library.Char_ord"
begin

section \<open>The SinaraML archive: packing a directory into rows and back\<close>

text \<open>
  This theory embeds \<^verbatim>\<open>sinara/archive.py\<close>: the chunker \<^verbatim>\<open>_split_file\<close>, the rejoiner
  \<^verbatim>\<open>_join_parts\<close>, the partition count and the row set computed by
  \<^verbatim>\<open>pack_files_from_tmp_to_spark_df\<close>, and the per-row writer \<^verbatim>\<open>SinaraArchive_save_file\<close>.

  The local filesystem is an association list from absolute paths to nodes. The order of the
  list is the order in which the operating system enumerates entries, so that a statement
  about every listing order is a statement about every reordering of the list. A path is the
  list of its components, as \<^verbatim>\<open>pathlib.Path.parts\<close> without the root; the root directory is the
  empty list and always exists. A Python exception is a value of type \<open>error\<close>; an operation
  that raises returns \<open>Inl\<close> and the filesystem it leaves behind is not tracked.
\<close>

subsection \<open>Paths\<close>

type_synonym byte = "8 word"
type_synonym bytes = "byte list"
type_synonym path = "string list"

definition name :: "path \<Rightarrow> string" where
  "name p = (if p = [] then [] else last p)"

definition parent :: "path \<Rightarrow> path" where
  "parent p = butlast p"

definition path_str :: "path \<Rightarrow> string" where
  "path_str p = (if p = [] then ''/'' else concat (map (\<lambda>c. CHR ''/'' # c) p))"

definition endswith :: "string \<Rightarrow> string \<Rightarrow> bool" where
  "endswith s suf = (length suf \<le> length s \<and> drop (length s - length suf) s = suf)"

definition startswith :: "string \<Rightarrow> string \<Rightarrow> bool" where
  "startswith s pre = (take (length pre) s = pre)"

text \<open>
  \<^verbatim>\<open>PurePath.stem\<close>: the name up to its last dot, unless that dot is the first or the last
  character of the name (or there is none).
\<close>

definition stem :: "string \<Rightarrow> string" where
  "stem n =
     (let suf = takeWhile (\<lambda>c. c \<noteq> CHR ''.'') (rev n) in
      if length suf = length n then n
      else let i = length n - length suf - 1 in
        if 0 < i \<and> i < length n - 1 then take i n else n)"

subsection \<open>The filesystem\<close>

datatype node = File bytes | Dir

type_synonym filesystem = "(path \<times> node) list"

datatype error =
    FileExistsError
  | FileNotFoundError
  | IsADirectoryError
  | NotADirectoryError
  | ZeroDivisionError
  | OverflowError

definition lookup :: "filesystem \<Rightarrow> path \<Rightarrow> node option" where
  "lookup fs p = (if p = [] then Some Dir else map_of fs p)"

definition is_dir :: "filesystem \<Rightarrow> path \<Rightarrow> bool" where
  "is_dir fs p = (lookup fs p = Some Dir)"

definition is_file :: "filesystem \<Rightarrow> path \<Rightarrow> bool" where
  "is_file fs p = (case lookup fs p of Some (File c) \<Rightarrow> True | _ \<Rightarrow> False)"

text \<open>\<^verbatim>\<open>Path.stat().st_size\<close> of a regular file.\<close>

definition st_size :: "filesystem \<Rightarrow> path \<Rightarrow> nat" where
  "st_size fs p = (case lookup fs p of Some (File c) \<Rightarrow> length c | _ \<Rightarrow> 0)"

text \<open>\<^verbatim>\<open>Path.mkdir(parents=False, exist_ok=True)\<close>.\<close>

definition mkdir :: "filesystem \<Rightarrow> path \<Rightarrow> error + filesystem" where
  "mkdir fs p =
     (case lookup fs p of
        Some Dir \<Rightarrow> Inr fs
      | Some (File c) \<Rightarrow> Inl FileExistsError
      | None \<Rightarrow>
          (case lookup fs (parent p) of
             Some Dir \<Rightarrow> Inr (fs @ [(p, Dir)])
           | Some (File c) \<Rightarrow> Inl NotADirectoryError
           | None \<Rightarrow> Inl FileNotFoundError))"

text \<open>\<^verbatim>\<open>open(p, 'wb')\<close>, one \<^verbatim>\<open>write(data)\<close> and the close: the file is created or replaced.\<close>

definition write_file :: "filesystem \<Rightarrow> path \<Rightarrow> bytes \<Rightarrow> error + filesystem" where
  "write_file fs p data =
     (case lookup fs p of
        Some Dir \<Rightarrow> Inl IsADirectoryError
      | Some (File c) \<Rightarrow> Inr (AList.update p (File data) fs)
      | None \<Rightarrow>
          (case lookup fs (parent p) of
             Some Dir \<Rightarrow> Inr (AList.update p (File data) fs)
           | Some (File c) \<Rightarrow> Inl NotADirectoryError
           | None \<Rightarrow> Inl FileNotFoundError))"

text \<open>\<^verbatim>\<open>open(p, 'rb').read()\<close>.\<close>

definition read_file :: "filesystem \<Rightarrow> path \<Rightarrow> error + bytes" where
  "read_file fs p =
     (case lookup fs p of
        Some (File c) \<Rightarrow> Inr c
      | Some Dir \<Rightarrow> Inl IsADirectoryError
      | None \<Rightarrow> Inl FileNotFoundError)"

text \<open>\<^verbatim>\<open>Path.touch()\<close>: an existing entry keeps its content, a missing one becomes an empty file.\<close>

definition touch :: "filesystem \<Rightarrow> path \<Rightarrow> error + filesystem" where
  "touch fs p =
     (case lookup fs p of
        Some n \<Rightarrow> Inr fs
      | None \<Rightarrow>
          (case lookup fs (parent p) of
             Some Dir \<Rightarrow> Inr (fs @ [(p, File [])])
           | Some (File c) \<Rightarrow> Inl NotADirectoryError
           | None \<Rightarrow> Inl FileNotFoundError))"

text \<open>\<^verbatim>\<open>shutil.rmtree(p)\<close>: the directory and everything below it disappear.\<close>

definition rmtree :: "filesystem \<Rightarrow> path \<Rightarrow> error + filesystem" where
  "rmtree fs p =
     (case lookup fs p of
        Some Dir \<Rightarrow> Inr (filter (\<lambda>(q, n). \<not> prefix p q) fs)
      | Some (File c) \<Rightarrow> Inl NotADirectoryError
      | None \<Rightarrow> Inl FileNotFoundError)"

text \<open>
  \<^verbatim>\<open>os.makedirs(p, exist_ok=True)\<close>: every missing ancestor is created, from the root down;
  a regular file on the way is an error.
\<close>

fun makedirs_from :: "filesystem \<Rightarrow> path \<Rightarrow> string list \<Rightarrow> error + filesystem" where
  "makedirs_from fs b [] = Inr fs"
| "makedirs_from fs b (c # cs) =
     (case lookup fs (b @ [c]) of
        Some Dir \<Rightarrow> makedirs_from fs (b @ [c]) cs
      | Some (File d) \<Rightarrow> Inl (if cs = [] then FileExistsError else NotADirectoryError)
      | None \<Rightarrow> makedirs_from (fs @ [(b @ [c], Dir)]) (b @ [c]) cs)"

definition makedirs :: "filesystem \<Rightarrow> path \<Rightarrow> error + filesystem" where
  "makedirs fs p = makedirs_from fs [] p"

subsection \<open>The chunker\<close>

text \<open>The format \<^verbatim>\<open>{part_num:04d}\<close>: the decimal numeral, padded with zeros to width four.\<close>

definition digit_char :: "nat \<Rightarrow> char" where
  "digit_char d = ''0123456789'' ! d"

function dec :: "nat \<Rightarrow> string" where
  "dec n = (if n < 10 then [digit_char n] else dec (n div 10) @ [digit_char (n mod 10)])"
  by pat_completeness auto
termination
  by (relation "measure id") auto

declare dec.simps [simp del]

definition fmt_04d :: "nat \<Rightarrow> string" where
  "fmt_04d n = replicate (4 - length (dec n)) (CHR ''0'') @ dec n"

definition part_name :: "nat \<Rightarrow> string" where
  "part_name n = ''part-'' @ fmt_04d n"

text \<open>
  The loop of \<^verbatim>\<open>_split_file\<close>. \<open>rest\<close> is what the open source file has left to read:
  \<^verbatim>\<open>fin.read(chunk_size)\<close> returns its first \<open>chunk_size\<close> bytes, and the loop stops at the
  first empty read.
\<close>

function write_chunks :: "filesystem \<Rightarrow> path \<Rightarrow> bytes \<Rightarrow> nat \<Rightarrow> nat \<Rightarrow> error + filesystem" where
  "write_chunks fs parts_path rest chunk_size part_num =
     (let chunk = take chunk_size rest in
      if chunk = [] then Inr fs
      else
        (case write_file fs (parts_path @ [part_name part_num]) chunk of
           Inl e \<Rightarrow> Inl e
         | Inr fs' \<Rightarrow>
             write_chunks fs' parts_path (drop chunk_size rest) chunk_size (part_num + 1)))"
  by pat_completeness auto
termination
  by (relation "measure (\<lambda>(fs, parts_path, rest, chunk_size, part_num). length rest)") auto

declare write_chunks.simps [simp del]

definition parts_path_of :: "path \<Rightarrow> path" where
  "parts_path_of p = parent p @ [name p @ ''.parts'']"

definition split_file :: "filesystem \<Rightarrow> path \<Rightarrow> nat \<Rightarrow> error + filesystem" where
  "split_file fs p chunk_size =
     (let parts_path = parts_path_of p in
      case mkdir fs parts_path of
        Inl e \<Rightarrow> Inl e
      | Inr fs1 \<Rightarrow>
          (case read_file fs1 p of
             Inl e \<Rightarrow> Inl e
           | Inr data \<Rightarrow>
               (case write_chunks fs1 parts_path data chunk_size 0 of
                  Inl e \<Rightarrow> Inl e
                | Inr fs2 \<Rightarrow> touch fs2 (parts_path @ [''_PARTS'']))))"

subsection \<open>The rejoiner\<close>

text \<open>\<^verbatim>\<open>Path(path).glob('**/*.parts')\<close>, filtered by \<^verbatim>\<open>is_dir()\<close>, in listing order.\<close>

definition parts_dirlist :: "filesystem \<Rightarrow> path \<Rightarrow> path list" where
  "parts_dirlist fs tmp_entity_dir =
     map fst (filter (\<lambda>(x, n). strict_prefix tmp_entity_dir x \<and> endswith (name x) ''.parts'' \<and> n = Dir) fs)"

text \<open>\<^verbatim>\<open>Path(parts_dir).glob('part-*')\<close>: the direct children whose name starts with \<^verbatim>\<open>part-\<close>.\<close>

definition glob_parts :: "filesystem \<Rightarrow> path \<Rightarrow> path list" where
  "glob_parts fs parts_dir =
     map fst (filter (\<lambda>(x, n). x \<noteq> [] \<and> parent x = parts_dir \<and> startswith (name x) ''part-'') fs)"

fun read_all :: "filesystem \<Rightarrow> path list \<Rightarrow> error + bytes" where
  "read_all fs [] = Inr []"
| "read_all fs (p # ps) =
     (case read_file fs p of
        Inl e \<Rightarrow> Inl e
      | Inr c \<Rightarrow> (case read_all fs ps of Inl e \<Rightarrow> Inl e | Inr cs \<Rightarrow> Inr (c @ cs)))"

text \<open>
  One iteration of the loop of \<^verbatim>\<open>_join_parts\<close>. The destination is opened (and so created
  or emptied) before the chunk directory is listed; \<^verbatim>\<open>sorted\<close> compares the paths component
  by component, each component as a string.
\<close>

definition join_one :: "filesystem \<Rightarrow> path \<Rightarrow> error + filesystem" where
  "join_one fs parts_dir =
     (let file_name = parent parts_dir @ [stem (name parts_dir)] in
      case write_file fs file_name [] of
        Inl e \<Rightarrow> Inl e
      | Inr fs1 \<Rightarrow>
          (case read_all fs1 (sort (glob_parts fs1 parts_dir)) of
             Inl e \<Rightarrow> Inl e
           | Inr data \<Rightarrow>
               (case write_file fs1 file_name data of
                  Inl e \<Rightarrow> Inl e
                | Inr fs2 \<Rightarrow> rmtree fs2 parts_dir)))"

fun join_all :: "filesystem \<Rightarrow> path list \<Rightarrow> error + filesystem" where
  "join_all fs [] = Inr fs"
| "join_all fs (d # ds) =
     (case join_one fs d of Inl e \<Rightarrow> Inl e | Inr fs' \<Rightarrow> join_all fs' ds)"

definition join_parts :: "filesystem \<Rightarrow> path \<Rightarrow> error + filesystem" where
  "join_parts fs tmp_entity_dir = join_all fs (parts_dirlist fs tmp_entity_dir)"

subsection \<open>The partition count\<close>

text \<open>
  The source computes \<^verbatim>\<open>int(total_size / self.BLOCK_SIZE)\<close>. Python's \<^verbatim>\<open>/\<close> on two integers is
  the quotient rounded to the nearest binary64 number, ties to the even significand;
  \<^verbatim>\<open>int\<close> then truncates. The rounding is written out on integers: for a positive quotient
  with \<open>2 ^ e \<le> a / b < 2 ^ (e + 1)\<close> the result is \<open>m * 2 ^ (e - 52)\<close>, where \<open>m\<close> is the
  integer nearest to \<open>a / b * 2 ^ (52 - e)\<close>. A quotient below the normal range truncates to
  zero with this rounding as it does with the gradual underflow of the hardware.
\<close>

function bit_length :: "nat \<Rightarrow> nat" where
  "bit_length n = (if n = 0 then 0 else Suc (bit_length (n div 2)))"
  by pat_completeness auto
termination
  by (relation "measure id") auto

declare bit_length.simps [simp del]

definition round_half_even :: "nat \<Rightarrow> nat \<Rightarrow> nat" where
  "round_half_even num den =
     (let q = num div den; r = num mod den in
      if 2 * r < den then q
      else if den < 2 * r then q + 1
      else if even q then q else q + 1)"

text \<open>The exponent \<open>e\<close> with \<open>2 ^ e \<le> a / b < 2 ^ (e + 1)\<close>, for positive \<open>a\<close> and \<open>b\<close>.\<close>

definition quotient_exponent :: "nat \<Rightarrow> nat \<Rightarrow> int" where
  "quotient_exponent a b =
     (let e0 = int (bit_length a) - int (bit_length b) in
      if (if 0 \<le> e0 then b * 2 ^ nat e0 \<le> a else b \<le> a * 2 ^ nat (- e0)) then e0 else e0 - 1)"

definition int_true_div :: "nat \<Rightarrow> nat \<Rightarrow> error + int" where
  "int_true_div a b =
     (if b = 0 then Inl ZeroDivisionError
      else if a = 0 then Inr 0
      else
        let k = 52 - quotient_exponent a b in
        if 0 \<le> k then Inr (int (round_half_even (a * 2 ^ nat k) b div 2 ^ nat k))
        else
          let v = round_half_even a (b * 2 ^ nat (- k)) * 2 ^ nat (- k) in
          if 2 ^ 1024 \<le> v then Inl OverflowError else Inr (int v))"

text \<open>
  \<open>server_cores\<close> is the value of the environment variable \<^verbatim>\<open>SINARA_SERVER_CORES\<close> when it is
  set.
\<close>

definition partitions :: "nat \<Rightarrow> nat \<Rightarrow> int option \<Rightarrow> error + int" where
  "partitions total_size block_size server_cores =
     (let cores = (case server_cores of Some c \<Rightarrow> c | None \<Rightarrow> 5);
          threads = cores * 3
      in case int_true_div total_size block_size of
           Inl e \<Rightarrow> Inl e
         | Inr q \<Rightarrow> Inr (if q > threads then q else threads))"

subsection \<open>Packing\<close>

record config =
  BLOCK_SIZE :: nat
  ROW_SIZE :: nat

text \<open>
  The engine is outside the repository. Its \<^verbatim>\<open>binaryFile\<close> reader, with
  \<^verbatim>\<open>recursiveFileLookup\<close>, returns one row for every regular file that its listing finds below
  the directory, with the file's URI \<^verbatim>\<open>file:\<close> followed by its absolute path, its size and its
  bytes; \<^verbatim>\<open>repartition\<close> and the parquet store keep the set of rows. The glob filter \<^verbatim>\<open>*\<close>
  keeps every name.

  The listing of the engine leaves out, at every level below the directory, the entries whose
  name its rule \<^verbatim>\<open>shouldFilterOutPathName\<close> rejects: a name that begins with \<^verbatim>\<open>_\<close> and holds no
  \<^verbatim>\<open>=\<close>, or begins with \<^verbatim>\<open>.\<close>, or ends with \<^verbatim>\<open>._COPYING_\<close>, unless it begins with
  \<^verbatim>\<open>_common_metadata\<close> or \<^verbatim>\<open>_metadata\<close>. A directory that is left out hides everything below it.
\<close>

record binary_file =
  path_col :: string
  length_col :: nat
  content_col :: bytes

fun node_bytes :: "node \<Rightarrow> bytes" where
  "node_bytes (File c) = c"
| "node_bytes Dir = []"

definition shouldFilterOutPathName :: "string \<Rightarrow> bool" where
  "shouldFilterOutPathName pathName =
     (((startswith pathName ''_'' \<and> CHR ''='' \<notin> set pathName) \<or> startswith pathName ''.''
        \<or> endswith pathName ''._COPYING_'')
      \<and> \<not> (startswith pathName ''_common_metadata'' \<or> startswith pathName ''_metadata''))"

definition listed :: "path \<Rightarrow> path \<Rightarrow> bool" where
  "listed tmp_entity_dir p =
     (strict_prefix tmp_entity_dir p
      \<and> list_all (\<lambda>c. \<not> shouldFilterOutPathName c) (drop (length tmp_entity_dir) p))"

definition load_binary_files :: "filesystem \<Rightarrow> path \<Rightarrow> binary_file list" where
  "load_binary_files fs tmp_entity_dir =
     map (\<lambda>(p, n). \<lparr>path_col = ''file:'' @ path_str p, length_col = length (node_bytes n),
                     content_col = node_bytes n\<rparr>)
       (filter (\<lambda>(p, n). listed tmp_entity_dir p \<and> n \<noteq> Dir) fs)"

text \<open>
  \<^verbatim>\<open>regexp_replace\<close> of the engine replaces every match of a Java regular expression. A pattern
  without a metacharacter matches exactly its own occurrences, which are found from left to
  right and do not overlap, and a replacement without \<^verbatim>\<open>$\<close> and backslash is inserted as it
  is: this case is \<open>replace_literal\<close>. The matching of a pattern with metacharacters is not
  modelled: it is left to the parameter \<open>java_regex\<close>, about which nothing is assumed.
\<close>

definition regex_metachars :: string where
  "regex_metachars = ''^$.|?*+()[]{}'' @ [CHR 0x5C]"

definition literal_pattern :: "string \<Rightarrow> bool" where
  "literal_pattern pat = list_all (\<lambda>c. c \<notin> set regex_metachars) pat"

definition literal_replacement :: "string \<Rightarrow> bool" where
  "literal_replacement rep = list_all (\<lambda>c. c \<noteq> CHR ''$'' \<and> c \<noteq> CHR 0x5C) rep"

function replace_literal :: "string \<Rightarrow> string \<Rightarrow> string \<Rightarrow> string" where
  "replace_literal s pat rep =
     (if pat = [] then rep @ concat (map (\<lambda>c. c # rep) s)
      else if s = [] then []
      else if prefix pat s then rep @ replace_literal (drop (length pat) s) pat rep
      else hd s # replace_literal (tl s) pat rep)"
  by pat_completeness auto
termination
  by (relation "measure (\<lambda>(s, pat, rep). length s)") auto

declare replace_literal.simps [simp del]

type_synonym regex_engine = "string \<Rightarrow> string \<Rightarrow> string \<Rightarrow> string"

definition regexp_replace :: "regex_engine \<Rightarrow> string \<Rightarrow> string \<Rightarrow> string \<Rightarrow> string" where
  "regexp_replace java_regex s pat rep =
     (if literal_pattern pat \<and> literal_replacement rep then replace_literal s pat rep
      else java_regex s pat rep)"

record file_row =
  relPath :: string
  content :: bytes
  length_of_row :: nat

text \<open>
  The first walk of \<^verbatim>\<open>pack_files_from_tmp_to_spark_df\<close>: the list of paths is taken once, then
  every path that is a regular file adds its size to the total and is split when it is
  larger than the row size.
\<close>

definition pathlist :: "filesystem \<Rightarrow> path \<Rightarrow> path list" where
  "pathlist fs tmp_entity_dir =
     filter (\<lambda>x. \<not> endswith (name x) ''.parts'' \<and> \<not> endswith (path_str (parent x)) ''.parts'')
       (map fst (filter (\<lambda>(x, n). strict_prefix tmp_entity_dir x) fs))"

fun walk :: "nat \<Rightarrow> path list \<Rightarrow> nat \<Rightarrow> filesystem \<Rightarrow> error + (nat \<times> filesystem)" where
  "walk row_size [] total_size fs = Inr (total_size, fs)"
| "walk row_size (p # ps) total_size fs =
     (if is_file fs p then
        (if row_size < st_size fs p then
           (case split_file fs p row_size of
              Inl e \<Rightarrow> Inl e
            | Inr fs' \<Rightarrow> walk row_size ps (total_size + st_size fs p) fs')
         else walk row_size ps (total_size + st_size fs p) fs)
      else walk row_size ps total_size fs)"

record dataframe =
  rows :: "file_row list"
  num_partitions :: int

definition to_row :: "regex_engine \<Rightarrow> path \<Rightarrow> binary_file \<Rightarrow> file_row" where
  "to_row java_regex tmp_entity_dir r =
     \<lparr>relPath = regexp_replace java_regex (path_col r) (''file:'' @ path_str tmp_entity_dir) [],
      content = content_col r, length_of_row = length_col r\<rparr>"

definition pack_files_from_tmp_to_spark_df ::
    "regex_engine \<Rightarrow> config \<Rightarrow> int option \<Rightarrow> filesystem \<Rightarrow> path \<Rightarrow>
     error + (filesystem \<times> dataframe)" where
  "pack_files_from_tmp_to_spark_df java_regex cfg server_cores fs tmp_entity_dir =
     (case walk (ROW_SIZE cfg) (pathlist fs tmp_entity_dir) 0 fs of
        Inl e \<Rightarrow> Inl e
      | Inr (total_size, fs') \<Rightarrow>
          (case partitions total_size (BLOCK_SIZE cfg) server_cores of
             Inl e \<Rightarrow> Inl e
           | Inr n \<Rightarrow>
               Inr (fs',
                 \<lparr>rows = map (to_row java_regex tmp_entity_dir)
                     (filter (\<lambda>r. length_col r \<le> ROW_SIZE cfg) (load_binary_files fs' tmp_entity_dir)),
                  num_partitions = n\<rparr>)))"

text \<open>\<^verbatim>\<open>pack\<close>: the rows of the dataframe become the content of the store.\<close>

definition pack ::
    "regex_engine \<Rightarrow> config \<Rightarrow> int option \<Rightarrow> filesystem \<Rightarrow> path \<Rightarrow>
     error + (filesystem \<times> file_row list)" where
  "pack java_regex cfg server_cores fs tmp_entity_dir =
     (case pack_files_from_tmp_to_spark_df java_regex cfg server_cores fs tmp_entity_dir of
        Inl e \<Rightarrow> Inl e
      | Inr (fs', df) \<Rightarrow> Inr (fs', rows df))"

subsection \<open>Unpacking\<close>

text \<open>\<^verbatim>\<open>str.strip('/')\<close> and the components of a relative path string.\<close>

definition strip_slash :: "string \<Rightarrow> string" where
  "strip_slash s =
     rev (dropWhile (\<lambda>c. c = CHR ''/'') (rev (dropWhile (\<lambda>c. c = CHR ''/'') s)))"

primrec split_slash :: "string \<Rightarrow> string list" where
  "split_slash [] = [[]]"
| "split_slash (c # cs) =
     (if c = CHR ''/'' then [] # split_slash cs
      else (case split_slash cs of [] \<Rightarrow> [[c]] | x # xs \<Rightarrow> (c # x) # xs))"

definition components :: "string \<Rightarrow> path" where
  "components s = filter (\<lambda>x. x \<noteq> []) (split_slash s)"

text \<open>
  \<^verbatim>\<open>SinaraArchive_save_file\<close>. The file name is the destination directory joined with the
  stripped relative path; the components \<^verbatim>\<open>.\<close> and \<^verbatim>\<open>..\<close> are not interpreted. An empty
  relative path names the destination directory itself, which cannot be opened for writing.
\<close>

definition SinaraArchive_save_file :: "filesystem \<Rightarrow> file_row \<Rightarrow> path \<Rightarrow> error + filesystem" where
  "SinaraArchive_save_file fs file_col tmp_entity_dir =
     (let rel = components (strip_slash (relPath file_col)) in
      case makedirs fs (tmp_entity_dir @ butlast rel) of
        Inl e \<Rightarrow> Inl e
      | Inr fs1 \<Rightarrow>
          if rel = [] then Inl IsADirectoryError
          else write_file fs1 (tmp_entity_dir @ rel) (content file_col))"

fun foreach_save :: "filesystem \<Rightarrow> file_row list \<Rightarrow> path \<Rightarrow> error + filesystem" where
  "foreach_save fs [] tmp_entity_dir = Inr fs"
| "foreach_save fs (r # rs) tmp_entity_dir =
     (case SinaraArchive_save_file fs r tmp_entity_dir of
        Inl e \<Rightarrow> Inl e
      | Inr fs' \<Rightarrow> foreach_save fs' rs tmp_entity_dir)"

definition unpack_files_from_spark_df_to_tmp ::
    "filesystem \<Rightarrow> file_row list \<Rightarrow> path \<Rightarrow> error + filesystem" where
  "unpack_files_from_spark_df_to_tmp fs df_archive tmp_entity_dir =
     (case foreach_save fs df_archive tmp_entity_dir of
        Inl e \<Rightarrow> Inl e
      | Inr fs1 \<Rightarrow> join_parts fs1 tmp_entity_dir)"

text \<open>
  \<^verbatim>\<open>unpack\<close>: the destination is the temporary work path joined with the last segment of the
  store path.
\<close>

definition unpack ::
    "filesystem \<Rightarrow> file_row list \<Rightarrow> path \<Rightarrow> string \<Rightarrow> error + filesystem" where
  "unpack fs store tmp_work_path store_name =
     unpack_files_from_spark_df_to_tmp fs store (tmp_work_path @ [store_name])"

subsection \<open>Conditions on the inputs\<close>

text \<open>The components of the path that \<open>SinaraArchive_save_file\<close> derives from a row.\<close>

abbreviation row_path :: "file_row \<Rightarrow> path" where
  "row_path r \<equiv> components (strip_slash (relPath r))"

subsection \<open>The order of the names of 10001 chunks\<close>

text \<open>
  The indices of 10001 chunks in the order in which \<^verbatim>\<open>sorted\<close> puts their names: the name of
  index 10000 has five digits and stands, as a string, between those of 1000 and 1001.
\<close>

definition chunk_order :: "nat list" where
  "chunk_order = [0..<1001] @ [10000] @ [1001..<10000]"

section \<open>Facts about the format of chunk names\<close>

lemma dec_lt10: "n < 10 \<Longrightarrow> dec n = [digit_char n]"
  by (simp add: dec.simps)

lemma dec_lt100:
  "10 \<le> n \<Longrightarrow> n < 100 \<Longrightarrow> dec n = [digit_char (n div 10), digit_char (n mod 10)]"
  by (subst dec.simps) (simp add: dec_lt10)

lemma dec_lt1000:
  "100 \<le> n \<Longrightarrow> n < 1000 \<Longrightarrow>
   dec n = [digit_char (n div 100), digit_char (n div 10 mod 10), digit_char (n mod 10)]"
  by (subst dec.simps) (simp add: dec_lt100 div_mult2_eq [symmetric])

lemma dec_lt10000:
  "1000 \<le> n \<Longrightarrow> n < 10000 \<Longrightarrow>
   dec n = [digit_char (n div 1000), digit_char (n div 100 mod 10), digit_char (n div 10 mod 10),
            digit_char (n mod 10)]"
  by (subst dec.simps) (simp add: dec_lt1000 div_mult2_eq [symmetric])

lemma digit_char_0: "digit_char 0 = CHR ''0''"
  by (simp add: digit_char_def)

lemma replicate_small:
  "replicate 3 c = [c, c, c]" "replicate 2 c = [c, c]" "replicate (Suc 0) c = [c]"
  by (simp_all add: eval_nat_numeral)

lemma fmt_04d_digits:
  assumes "n < 10000"
  shows "fmt_04d n = [digit_char (n div 1000), digit_char (n div 100 mod 10),
                      digit_char (n div 10 mod 10), digit_char (n mod 10)]"
proof -
  consider "n < 10" | "10 \<le> n" "n < 100" | "100 \<le> n" "n < 1000" | "1000 \<le> n"
    by linarith
  then show ?thesis
  proof cases
    case 1
    then show ?thesis
      by (simp add: fmt_04d_def dec_lt10 digit_char_0 replicate_small)
  next
    case 2
    then show ?thesis
      by (simp add: fmt_04d_def dec_lt100 digit_char_0 replicate_small)
  next
    case 3
    then show ?thesis
      by (simp add: fmt_04d_def dec_lt1000 digit_char_0 replicate_small)
  next
    case 4
    with assms show ?thesis
      by (simp add: fmt_04d_def dec_lt10000)
  qed
qed

text \<open>The definitions that a concrete run of the model unfolds.\<close>

lemmas fs_eval = lookup_def is_dir_def is_file_def st_size_def mkdir_def write_file_def
  read_file_def touch_def rmtree_def makedirs_def name_def parent_def path_str_def endswith_def
  startswith_def stem_def

lemmas chunk_eval = part_name_def fmt_04d_digits digit_char_def write_chunks.simps
  parts_path_of_def split_file_def

lemmas join_eval = parts_dirlist_def glob_parts_def join_one_def join_parts_def
  less_eq_char_def less_char_def

lemmas plan_eval = int_true_div_def quotient_exponent_def bit_length.simps round_half_even_def
  partitions_def

lemmas pack_eval = shouldFilterOutPathName_def listed_def load_binary_files_def regex_metachars_def
  literal_pattern_def literal_replacement_def replace_literal.simps regexp_replace_def
  pathlist_def to_row_def
  pack_files_from_tmp_to_spark_df_def pack_def

lemmas unpack_eval = strip_slash_def components_def SinaraArchive_save_file_def
  unpack_files_from_spark_df_to_tmp_def unpack_def

section \<open>Facts about the filesystem operations\<close>

lemma lookup_root [simp]: "lookup fs [] = Some Dir"
  by (simp add: lookup_def)

lemma lookup_nonroot: "p \<noteq> [] \<Longrightarrow> lookup fs p = map_of fs p"
  by (simp add: lookup_def)

lemma map_of_filter_key:
  "map_of (filter (\<lambda>(k, v). P k) xs) k = (if P k then map_of xs k else None)"
  by (induction xs) auto

lemma lookup_mkdir:
  "mkdir fs p = Inr fs' \<Longrightarrow> lookup fs' q = (if q = p then Some Dir else lookup fs q)"
  by (auto simp: mkdir_def lookup_def map_add_def split: option.splits node.splits if_splits)

lemma lookup_write_file:
  "write_file fs p d = Inr fs' \<Longrightarrow> lookup fs' q = (if q = p then Some (File d) else lookup fs q)"
  by (auto simp: write_file_def lookup_def update_conv' split: option.splits node.splits if_splits)

lemma lookup_touch:
  "touch fs p = Inr fs' \<Longrightarrow>
   lookup fs' q = (if q = p \<and> lookup fs p = None then Some (File []) else lookup fs q)"
  by (auto simp: touch_def lookup_def map_add_def split: option.splits node.splits if_splits)

lemma lookup_rmtree:
  "rmtree fs p = Inr fs' \<Longrightarrow> p \<noteq> [] \<Longrightarrow>
   lookup fs' q = (if prefix p q then None else lookup fs q)"
  by (auto simp: rmtree_def lookup_def map_of_filter_key split: option.splits node.splits if_splits)

lemma distinct_mkdir:
  "mkdir fs p = Inr fs' \<Longrightarrow> distinct (map fst fs) \<Longrightarrow> distinct (map fst fs')"
  by (auto simp: mkdir_def lookup_def map_of_eq_None_iff split: option.splits node.splits if_splits)

lemma distinct_write_file:
  "write_file fs p d = Inr fs' \<Longrightarrow> distinct (map fst fs) \<Longrightarrow> distinct (map fst fs')"
  by (auto simp: write_file_def distinct_update split: option.splits node.splits)

lemma distinct_touch:
  "touch fs p = Inr fs' \<Longrightarrow> distinct (map fst fs) \<Longrightarrow> distinct (map fst fs')"
  by (auto simp: touch_def lookup_def map_of_eq_None_iff split: option.splits node.splits if_splits)

lemma distinct_rmtree:
  "rmtree fs p = Inr fs' \<Longrightarrow> distinct (map fst fs) \<Longrightarrow> distinct (map fst fs')"
  by (auto simp: rmtree_def distinct_map_filter split: option.splits node.splits)

lemma keys_lookup:
  "distinct (map fst fs) \<Longrightarrow> [] \<notin> fst ` set fs \<Longrightarrow> (p, n) \<in> set fs \<longleftrightarrow> p \<noteq> [] \<and> lookup fs p = Some n"
  by (force simp: lookup_def)

subsection \<open>Chunk names\<close>

lemma digit_cases:
  assumes "d < 10"
  shows "d = 0 \<or> d = 1 \<or> d = 2 \<or> d = 3 \<or> d = 4 \<or> d = 5 \<or> d = 6 \<or> d = 7 \<or> d = 8 \<or> d = (9::nat)"
  using assms by presburger

lemma of_char_digit_char: "d < 10 \<Longrightarrow> of_char (digit_char d) = 48 + d"
  using digit_cases [of d] by (auto simp: digit_char_def)

lemma digit_char_less: "a < 10 \<Longrightarrow> b < 10 \<Longrightarrow> digit_char a < digit_char b \<longleftrightarrow> a < b"
  by (simp add: less_char_def of_char_digit_char)

lemma digit_char_eq: "a < 10 \<Longrightarrow> b < 10 \<Longrightarrow> digit_char a = digit_char b \<longleftrightarrow> a = b"
  by (metis of_char_digit_char add_left_cancel)

lemma val_dec: "foldl (\<lambda>a ch. 10 * a + (of_char ch - 48)) 0 (dec n) = n"
proof (induction n rule: dec.induct)
  case (1 n)
  show ?case
  proof (cases "n < 10")
    case True
    then show ?thesis
      by (simp add: dec_lt10 of_char_digit_char)
  next
    case False
    with "1.IH" have "foldl (\<lambda>a ch. 10 * a + (of_char ch - 48)) 0 (dec (n div 10)) = n div 10"
      by simp
    with False show ?thesis
      by (subst dec.simps) (simp add: of_char_digit_char)
  qed
qed

lemma val_zeros:
  "foldl (\<lambda>a ch. 10 * a + (of_char ch - 48)) 0 (replicate k (CHR ''0'') @ s) =
   foldl (\<lambda>a ch. 10 * a + (of_char ch - 48)) (0::nat) s"
  by (induction k) simp_all

lemma val_fmt_04d: "foldl (\<lambda>a ch. 10 * a + (of_char ch - 48)) 0 (fmt_04d n) = n"
  unfolding fmt_04d_def val_zeros by (rule val_dec)

lemma fmt_04d_inj: "fmt_04d i = fmt_04d j \<longleftrightarrow> i = j"
  by (metis val_fmt_04d)

lemma part_name_inj [simp]: "part_name i = part_name j \<longleftrightarrow> i = j"
  by (simp add: part_name_def fmt_04d_inj)

lemma digits_repr:
  "n = 1000 * (n div 1000) + 100 * (n div 100 mod 10) + 10 * (n div 10 mod 10) + n mod (10::nat)"
proof -
  have h: "n div 100 = n div 10 div 10" "n div 1000 = n div 100 div 10"
    by (simp_all add: div_mult2_eq [symmetric])
  have "n = 10 * (n div 10) + n mod 10" by simp
  moreover have "n div 10 = 10 * (n div 100) + n div 10 mod 10"
    unfolding h by simp
  moreover have "n div 100 = 10 * (n div 1000) + n div 100 mod 10"
    unfolding h(2) by simp
  ultimately show ?thesis by linarith
qed

lemma fmt_04d_less:
  assumes "i < j" "j < 10000"
  shows "fmt_04d i < fmt_04d j"
proof -
  define a3 a2 a1 a0 where "a3 = i div 1000" and "a2 = i div 100 mod 10"
    and "a1 = i div 10 mod 10" and "a0 = i mod 10"
  define b3 b2 b1 b0 where "b3 = j div 1000" and "b2 = j div 100 mod 10"
    and "b1 = j div 10 mod 10" and "b0 = j mod 10"
  have i: "i = 1000 * a3 + 100 * a2 + 10 * a1 + a0"
    unfolding a3_def a2_def a1_def a0_def by (rule digits_repr)
  have j: "j = 1000 * b3 + 100 * b2 + 10 * b1 + b0"
    unfolding b3_def b2_def b1_def b0_def by (rule digits_repr)
  have d: "a3 < 10" "b3 < 10" "a2 < 10" "b2 < 10" "a1 < 10" "b1 < 10" "a0 < 10" "b0 < 10"
    using assms by (simp_all add: a3_def a2_def a1_def a0_def b3_def b2_def b1_def b0_def)
  have lex: "a3 < b3 \<or> a3 = b3 \<and> (a2 < b2 \<or> a2 = b2 \<and> (a1 < b1 \<or> a1 = b1 \<and> a0 < b0))"
  proof (rule ccontr)
    assume "\<not> ?thesis"
    then consider "b3 < a3" | "a3 = b3" "b2 < a2" | "a3 = b3" "a2 = b2" "b1 < a1"
      | "a3 = b3" "a2 = b2" "a1 = b1" "b0 \<le> a0"
      by linarith
    then have "j \<le> i"
      by cases (use i j d in linarith)+
    with assms(1) show False by simp
  qed
  have "fmt_04d i = [digit_char a3, digit_char a2, digit_char a1, digit_char a0]"
    using assms unfolding a3_def a2_def a1_def a0_def by (intro fmt_04d_digits) simp
  moreover have "fmt_04d j = [digit_char b3, digit_char b2, digit_char b1, digit_char b0]"
    using assms unfolding b3_def b2_def b1_def b0_def by (intro fmt_04d_digits) simp
  ultimately show ?thesis
    using lex d by (simp add: digit_char_less digit_char_eq)
qed

lemma part_name_less: "i < j \<Longrightarrow> j < 10000 \<Longrightarrow> part_name i < part_name j"
  by (simp add: part_name_def fmt_04d_less)

lemma part_name_startswith: "startswith (part_name k) ''part-''"
  by (simp add: part_name_def startswith_def)

lemma part_name_not_sentinel: "part_name k \<noteq> ''_PARTS''"
  by (simp add: part_name_def)

section \<open>Facts about the chunker\<close>

lemma write_file_succeeds:
  "lookup fs p \<noteq> Some Dir \<Longrightarrow> is_dir fs (parent p) \<Longrightarrow> \<exists>fs'. write_file fs p d = Inr fs'"
  by (cases "lookup fs p") (auto simp: write_file_def is_dir_def split: node.splits)

lemma parent_snoc [simp]: "parent (p @ [c]) = p"
  by (simp add: parent_def)

lemma name_snoc [simp]: "name (p @ [c]) = c"
  by (simp add: name_def)

lemma write_chunks_other:
  "write_chunks fs pp rest c n = Inr fs' \<Longrightarrow>
   (\<And>k. k * c < length rest \<Longrightarrow> q \<noteq> pp @ [part_name (n + k)]) \<Longrightarrow>
   lookup fs' q = lookup fs q"
proof (induction fs pp rest c n arbitrary: fs' rule: write_chunks.induct)
  case (1 fs pp rest c n)
  show ?case
  proof (cases "take c rest = []")
    case True
    with "1.prems"(1) show ?thesis
      by (subst (asm) write_chunks.simps) simp
  next
    case False
    then have c: "0 < c" and rest: "rest \<noteq> []" by auto
    from "1.prems"(1) False obtain fs1 where
      w: "write_file fs (pp @ [part_name n]) (take c rest) = Inr fs1" and
      r: "write_chunks fs1 pp (drop c rest) c (n + 1) = Inr fs'"
      by (subst (asm) write_chunks.simps) (auto simp: Let_def split: sum.splits)
    have "lookup fs' q = lookup fs1 q"
    proof (rule "1.IH" [OF refl False w r])
      fix k assume "k * c < length (drop c rest)"
      then have "Suc k * c < length rest" by simp
      from "1.prems"(2) [OF this] show "q \<noteq> pp @ [part_name (n + 1 + k)]" by simp
    qed
    moreover have "q \<noteq> pp @ [part_name n]"
      using "1.prems"(2) [of 0] rest by simp
    ultimately show ?thesis
      by (simp add: lookup_write_file [OF w])
  qed
qed

lemma write_chunks_chunk:
  "write_chunks fs pp rest c n = Inr fs' \<Longrightarrow> k * c < length rest \<Longrightarrow> 0 < c \<Longrightarrow>
   lookup fs' (pp @ [part_name (n + k)]) = Some (File (take c (drop (k * c) rest)))"
proof (induction fs pp rest c n arbitrary: fs' k rule: write_chunks.induct)
  case (1 fs pp rest c n)
  from "1.prems" have ne: "take c rest \<noteq> []" by auto
  with "1.prems"(1) obtain fs1 where
    w: "write_file fs (pp @ [part_name n]) (take c rest) = Inr fs1" and
    r: "write_chunks fs1 pp (drop c rest) c (n + 1) = Inr fs'"
    by (subst (asm) write_chunks.simps) (auto simp: Let_def split: sum.splits)
  show ?case
  proof (cases k)
    case 0
    have "lookup fs' (pp @ [part_name n]) = lookup fs1 (pp @ [part_name n])"
      by (rule write_chunks_other [OF r]) simp
    with 0 show ?thesis
      by (simp add: lookup_write_file [OF w])
  next
    case (Suc k')
    with "1.prems"(2) have "k' * c < length (drop c rest)" by simp
    from "1.IH" [OF refl ne w r this "1.prems"(3)] Suc show ?thesis
      by (simp add: add.commute)
  qed
qed

lemma write_chunks_succeeds:
  "is_dir fs pp \<Longrightarrow>
   (\<And>k. k * c < length rest \<Longrightarrow> lookup fs (pp @ [part_name (n + k)]) \<noteq> Some Dir) \<Longrightarrow>
   \<exists>fs'. write_chunks fs pp rest c n = Inr fs'"
proof (induction fs pp rest c n rule: write_chunks.induct)
  case (1 fs pp rest c n)
  show ?case
  proof (cases "take c rest = []")
    case True
    then show ?thesis
      by (subst write_chunks.simps) simp
  next
    case False
    then have rest: "rest \<noteq> []" by auto
    from "1.prems"(2) [of 0] rest have "lookup fs (pp @ [part_name n]) \<noteq> Some Dir" by simp
    with "1.prems"(1) obtain fs1 where
      w: "write_file fs (pp @ [part_name n]) (take c rest) = Inr fs1"
      using write_file_succeeds [of fs "pp @ [part_name n]" "take c rest"] by auto
    have "is_dir fs1 pp"
      using "1.prems"(1) by (simp add: is_dir_def lookup_write_file [OF w])
    moreover have "lookup fs1 (pp @ [part_name (n + 1 + k)]) \<noteq> Some Dir"
      if "k * c < length (drop c rest)" for k
    proof -
      from that have "Suc k * c < length rest" by simp
      from "1.prems"(2) [OF this] show ?thesis
        by (simp add: lookup_write_file [OF w])
    qed
    ultimately obtain fs' where "write_chunks fs1 pp (drop c rest) c (n + 1) = Inr fs'"
      using "1.IH" [OF refl False w] by blast
    with w False show ?thesis
      by (subst write_chunks.simps) (simp add: Let_def)
  qed
qed

lemma chunk_index_iff:
  assumes "0 < c"
  shows "k * c < L \<longleftrightarrow> k < (L + c - 1) div (c::nat)"
proof -
  have "k < (L + c - 1) div c \<longleftrightarrow> Suc k \<le> (L + c - 1) div c" by auto
  also have "\<dots> \<longleftrightarrow> Suc k * c \<le> L + c - 1"
    using assms by (simp only: less_eq_div_iff_mult_less_eq)
  also have "\<dots> \<longleftrightarrow> k * c < L"
    using assms by auto
  finally show ?thesis ..
qed

lemma concat_chunks_take:
  "concat (map (\<lambda>k. take c (drop (k * c) xs)) [0..<n]) = take (n * c) xs"
proof (induction n)
  case 0
  show ?case by simp
next
  case (Suc n)
  have "take (n * c) xs @ take c (drop (n * c) xs) = take (n * c + c) xs"
    by (simp add: take_add)
  with Suc show ?case by (simp add: add.commute)
qed

lemma concat_chunks:
  assumes "0 < c"
  shows "concat (map (\<lambda>k. take c (drop (k * c) xs)) [0..<(length xs + c - 1) div c]) = xs"
proof -
  have "\<not> (length xs + c - 1) div c * c < length xs"
    using chunk_index_iff [OF assms, of "(length xs + c - 1) div c" "length xs"] by simp
  then show ?thesis
    by (simp add: concat_chunks_take)
qed

lemma parts_path_of_neq: "p \<noteq> [] \<Longrightarrow> parts_path_of p \<noteq> p"
proof
  assume "p \<noteq> []" and eq: "parts_path_of p = p"
  then have "last (parts_path_of p) = last p" by simp
  with \<open>p \<noteq> []\<close> show False
    by (simp add: parts_path_of_def name_def)
qed

lemma parts_path_of_neq_parent: "p \<noteq> [] \<Longrightarrow> parent p \<noteq> parts_path_of p"
proof
  assume "p \<noteq> []" and "parent p = parts_path_of p"
  then have "length (parent p) = length (parts_path_of p)" by simp
  then show False
    by (simp add: parts_path_of_def parent_def)
qed

lemma parent_parts_path_of [simp]: "parent (parts_path_of p) = parent p"
  by (simp add: parts_path_of_def)

lemma split_file_unfold:
  assumes "split_file fs p c = Inr fs'"
  obtains fs1 data fs2 where
    "mkdir fs (parts_path_of p) = Inr fs1"
    "read_file fs1 p = Inr data"
    "write_chunks fs1 (parts_path_of p) data c 0 = Inr fs2"
    "touch fs2 (parts_path_of p @ [''_PARTS'']) = Inr fs'"
  using assms by (auto simp: split_file_def Let_def split: sum.splits)

lemma read_file_Inr: "read_file fs p = Inr data \<longleftrightarrow> lookup fs p = Some (File data)"
  by (auto simp: read_file_def split: option.splits node.splits)

lemma is_file_iff: "is_file fs p \<longleftrightarrow> (\<exists>data. lookup fs p = Some (File data))"
  by (auto simp: is_file_def split: option.splits node.splits)

text \<open>
  Claim C9 (frame property of split): a successful \<open>split_file\<close> leaves the original file in
  place with its bytes, and every entry of the filesystem that it creates or changes is the
  sibling directory \<^verbatim>\<open><name>.parts\<close> or an entry directly inside it.
\<close>

theorem split_file_frame:
  assumes "split_file fs p chunk_size = Inr fs'"
  shows "is_file fs p \<and> lookup fs' p = lookup fs p \<and>
         (\<forall>q. lookup fs' q \<noteq> lookup fs q \<longrightarrow>
              q = parts_path_of p \<or> (q \<noteq> [] \<and> parent q = parts_path_of p))"
proof -
  from assms obtain fs1 data fs2 where
    m: "mkdir fs (parts_path_of p) = Inr fs1" and
    r: "read_file fs1 p = Inr data" and
    w: "write_chunks fs1 (parts_path_of p) data chunk_size 0 = Inr fs2" and
    t: "touch fs2 (parts_path_of p @ [''_PARTS'']) = Inr fs'"
    by (rule split_file_unfold)
  have other: "lookup fs' q = lookup fs q"
    if "q \<noteq> parts_path_of p" "q = [] \<or> parent q \<noteq> parts_path_of p" for q
  proof -
    from that have ne: "q \<noteq> parts_path_of p @ [c]" for c
      by auto
    have "lookup fs' q = lookup fs2 q"
      using ne by (simp add: lookup_touch [OF t])
    also have "\<dots> = lookup fs1 q"
      using ne by (intro write_chunks_other [OF w]) simp
    also have "\<dots> = lookup fs q"
      using that(1) by (simp add: lookup_mkdir [OF m])
    finally show ?thesis .
  qed
  from r have "p \<noteq> []"
    by (auto simp: read_file_Inr)
  then have p: "lookup fs' p = lookup fs p"
    using parts_path_of_neq [of p] parts_path_of_neq_parent [of p] by (intro other) auto
  from r \<open>p \<noteq> []\<close> have "lookup fs p = Some (File data)"
    using parts_path_of_neq [of p] by (auto simp: read_file_Inr lookup_mkdir [OF m])
  then have "is_file fs p"
    by (auto simp: is_file_iff)
  with p other show ?thesis
    by blast
qed

theorem split_file_frame_witness:
  "split_file [([''src''], Dir), ([''src'', ''big''], File [1, 2, 3, 4, 5])] [''src'', ''big''] 2 =
     Inr [([''src''], Dir), ([''src'', ''big''], File [1, 2, 3, 4, 5]),
          ([''src'', ''big.parts''], Dir),
          ([''src'', ''big.parts'', ''part-0000''], File [1, 2]),
          ([''src'', ''big.parts'', ''part-0001''], File [3, 4]),
          ([''src'', ''big.parts'', ''part-0002''], File [5]),
          ([''src'', ''big.parts'', ''_PARTS''], File [])]
   \<and> lookup [([''src''], Dir), ([''src'', ''big''], File [1, 2, 3, 4, 5]),
          ([''src'', ''big.parts''], Dir),
          ([''src'', ''big.parts'', ''part-0000''], File [1, 2]),
          ([''src'', ''big.parts'', ''part-0001''], File [3, 4]),
          ([''src'', ''big.parts'', ''part-0002''], File [5]),
          ([''src'', ''big.parts'', ''_PARTS''], File [])] [''src'', ''big.parts'', ''part-0001'']
       \<noteq> lookup [([''src''], Dir), ([''src'', ''big''], File [1, 2, 3, 4, 5])]
           [''src'', ''big.parts'', ''part-0001'']
   \<and> parent [''src'', ''big.parts'', ''part-0001''] = parts_path_of [''src'', ''big'']
   \<and> is_file [([''src''], Dir), ([''src'', ''big''], File [1, 2, 3, 4, 5])] [''src'', ''big'']"
proof -
  have run: "split_file [([''src''], Dir), ([''src'', ''big''], File [1, 2, 3, 4, 5])]
      [''src'', ''big''] 2 =
     Inr [([''src''], Dir), ([''src'', ''big''], File [1, 2, 3, 4, 5]),
          ([''src'', ''big.parts''], Dir),
          ([''src'', ''big.parts'', ''part-0000''], File [1, 2]),
          ([''src'', ''big.parts'', ''part-0001''], File [3, 4]),
          ([''src'', ''big.parts'', ''part-0002''], File [5]),
          ([''src'', ''big.parts'', ''_PARTS''], File [])]"
    by (simp add: fs_eval chunk_eval Let_def)
  have changed: "lookup [([''src''], Dir), ([''src'', ''big''], File [1, 2, 3, 4, 5]),
          ([''src'', ''big.parts''], Dir),
          ([''src'', ''big.parts'', ''part-0000''], File [1, 2]),
          ([''src'', ''big.parts'', ''part-0001''], File [3, 4]),
          ([''src'', ''big.parts'', ''part-0002''], File [5]),
          ([''src'', ''big.parts'', ''_PARTS''], File [])] [''src'', ''big.parts'', ''part-0001'']
       \<noteq> lookup [([''src''], Dir), ([''src'', ''big''], File [1, 2, 3, 4, 5])]
           [''src'', ''big.parts'', ''part-0001'']"
    by (simp add: lookup_def)
  from split_file_frame [OF run] changed
  have "parent [''src'', ''big.parts'', ''part-0001''] = parts_path_of [''src'', ''big'']"
    by (auto simp: parts_path_of_def name_def parent_def)
  with run changed split_file_frame [OF run] show ?thesis
    by (simp only: simp_thms)
qed

text \<open>
  The effect of \<open>split_file\<close> on a file with \<open>S > 0\<close> bytes and a positive chunk size \<open>c\<close>, in
  a filesystem where nothing stands in the way (the parent is a directory, the name
  \<^verbatim>\<open><name>.parts\<close> is not a regular file and no chunk name is a directory): the call returns and
  leaves the chunk files \<open>part_name 0\<close>, ..., \<open>part_name (N - 1)\<close> with \<open>N = ceil (S / c)\<close>, each
  of size \<open>c\<close> except possibly the last, whose concatenation in index order is the original
  content, and the sentinel \<^verbatim>\<open>_PARTS\<close>.
\<close>

lemma split_file_chunks:
  assumes "lookup fs p = Some (File data)" and "data \<noteq> []" and "0 < c"
    and "is_dir fs (parent p)"
    and "\<not> is_file fs (parts_path_of p)"
    and "\<forall>k. k * c < length data \<longrightarrow> \<not> is_dir fs (parts_path_of p @ [part_name k])"
  shows "\<exists>fs'. split_file fs p c = Inr fs'
      \<and> is_dir fs' (parts_path_of p)
      \<and> (\<forall>k. k < (length data + c - 1) div c \<longrightarrow>
            lookup fs' (parts_path_of p @ [part_name k]) = Some (File (take c (drop (k * c) data))))
      \<and> (\<forall>k. (length data + c - 1) div c \<le> k \<longrightarrow>
            lookup fs' (parts_path_of p @ [part_name k]) = lookup fs (parts_path_of p @ [part_name k]))
      \<and> concat (map (\<lambda>k. take c (drop (k * c) data)) [0..<(length data + c - 1) div c]) = data
      \<and> (\<forall>k. k + 1 < (length data + c - 1) div c \<longrightarrow> length (take c (drop (k * c) data)) = c)
      \<and> (\<forall>k. k < (length data + c - 1) div c \<longrightarrow>
            0 < length (take c (drop (k * c) data)) \<and> length (take c (drop (k * c) data)) \<le> c)
      \<and> lookup fs' (parts_path_of p @ [''_PARTS'']) =
          (case lookup fs (parts_path_of p @ [''_PARTS'']) of None \<Rightarrow> Some (File []) | Some n \<Rightarrow> Some n)
      \<and> (\<forall>k. k < 10000 \<longrightarrow>
            part_name k = ''part-'' @ [digit_char (k div 1000), digit_char (k div 100 mod 10),
                                      digit_char (k div 10 mod 10), digit_char (k mod 10)])"
proof -
  define pp where "pp = parts_path_of p"
  define N where "N = (length data + c - 1) div c"
  note idx = chunk_index_iff [OF assms(3), of _ "length data", folded N_def]
  from assms(1) have p: "p \<noteq> []"
    by (auto simp: lookup_def)
  from assms(4, 5) obtain fs1 where m: "mkdir fs pp = Inr fs1"
    by (cases "lookup fs pp")
      (auto simp: mkdir_def is_dir_def is_file_def pp_def split: node.splits)
  have l1: "lookup fs1 q = (if q = pp then Some Dir else lookup fs q)" for q
    by (rule lookup_mkdir [OF m])
  have r: "read_file fs1 p = Inr data"
    using assms(1) parts_path_of_neq [OF p] by (simp add: read_file_Inr l1 pp_def)
  have "is_dir fs1 pp"
    by (simp add: is_dir_def l1)
  moreover have "lookup fs1 (pp @ [part_name (0 + k)]) \<noteq> Some Dir" if "k * c < length data" for k
    using assms(6) that by (simp add: l1 is_dir_def pp_def)
  ultimately obtain fs2 where w: "write_chunks fs1 pp data c 0 = Inr fs2"
    using write_chunks_succeeds [of fs1 pp c data 0] by blast
  have l2_chunk: "lookup fs2 (pp @ [part_name k]) = Some (File (take c (drop (k * c) data)))"
    if "k < N" for k
    using write_chunks_chunk [OF w _ assms(3), of k] that by (simp add: idx)
  have l2_other: "lookup fs2 q = lookup fs1 q" if "\<And>k. k < N \<Longrightarrow> q \<noteq> pp @ [part_name k]" for q
    using that by (intro write_chunks_other [OF w]) (simp add: idx)
  have "lookup fs2 pp = Some Dir"
    by (simp add: l2_other l1)
  then have "lookup fs2 (parent (pp @ [''_PARTS''])) = Some Dir"
    by simp
  then obtain fs' where t: "touch fs2 (pp @ [''_PARTS'']) = Inr fs'"
    by (cases "lookup fs2 (pp @ [''_PARTS''])") (simp_all add: touch_def)
  have l3: "lookup fs' q =
      (if q = pp @ [''_PARTS''] \<and> lookup fs2 (pp @ [''_PARTS'']) = None then Some (File [])
       else lookup fs2 q)" for q
    by (rule lookup_touch [OF t])
  have run: "split_file fs p c = Inr fs'"
    using m r w t by (simp add: split_file_def pp_def)
  have dir: "is_dir fs' pp"
    using \<open>lookup fs2 pp = Some Dir\<close> by (simp add: is_dir_def l3)
  have chunks: "lookup fs' (pp @ [part_name k]) = Some (File (take c (drop (k * c) data)))"
    if "k < N" for k
    using that by (simp add: l3 l2_chunk part_name_not_sentinel)
  have beyond: "lookup fs' (pp @ [part_name k]) = lookup fs (pp @ [part_name k])" if "N \<le> k" for k
  proof -
    have "lookup fs2 (pp @ [part_name k]) = lookup fs1 (pp @ [part_name k])"
      using that by (intro l2_other) auto
    then show ?thesis
      by (simp add: l3 l1 part_name_not_sentinel)
  qed
  have sizes: "length (take c (drop (k * c) data)) = c" if "k + 1 < N" for k
  proof -
    from that have "(k + 1) * c < length data" by (simp only: idx)
    then show ?thesis by simp
  qed
  have nonempty: "0 < length (take c (drop (k * c) data)) \<and> length (take c (drop (k * c) data)) \<le> c"
    if "k < N" for k
  proof -
    from that have "k * c < length data" by (simp only: idx)
    with assms(3) show ?thesis by simp
  qed
  have sentinel: "lookup fs' (pp @ [''_PARTS'']) =
      (case lookup fs (pp @ [''_PARTS'']) of None \<Rightarrow> Some (File []) | Some n \<Rightarrow> Some n)"
  proof -
    have "lookup fs2 (pp @ [''_PARTS'']) = lookup fs1 (pp @ [''_PARTS''])"
      by (intro l2_other) (simp add: part_name_not_sentinel [symmetric])
    then show ?thesis
      by (simp add: l3 l1 split: option.splits)
  qed
  have names: "part_name k = ''part-'' @ [digit_char (k div 1000), digit_char (k div 100 mod 10),
      digit_char (k div 10 mod 10), digit_char (k mod 10)]" if "k < 10000" for k
    using that by (simp add: part_name_def fmt_04d_digits)
  from run dir chunks beyond sizes nonempty sentinel names concat_chunks [OF assms(3), of data]
  show ?thesis
    unfolding pp_def N_def by blast
qed

lemma part_name_10000: "part_name 10000 = ''part-10000''"
  by (simp add: part_name_def fmt_04d_def dec.simps digit_char_def)

lemma part_name_1001: "part_name 1001 = ''part-1001''"
  by (simp add: part_name_def fmt_04d_digits digit_char_def)

text \<open>
  Claim C2 (chunker correctness) at a file of 10001 bytes, the last of which is 1, split with
  the chunk size 1: the call returns, and the chunk of index 10000, which holds the last byte,
  is written under the name \<^verbatim>\<open>part-10000\<close>, with five digits and not four. In the order of
  strings, by which \<^verbatim>\<open>_join_parts\<close> sorts the chunks, this name stands before \<^verbatim>\<open>part-1001\<close>,
  the name of the chunk of index 1001.
\<close>

theorem split_file_index_10000:
  "\<exists>fs'. split_file [([''d''], Dir), ([''d'', ''f''], File (replicate 10000 0 @ [1]))]
            [''d'', ''f''] 1 = Inr fs'
     \<and> lookup fs' [''d'', ''f.parts'', ''part-1001''] = Some (File [0])
     \<and> lookup fs' [''d'', ''f.parts'', ''part-10000''] = Some (File [1])
     \<and> part_name 10000 = ''part-10000''
     \<and> [''d'', ''f.parts'', ''part-10000''] < [''d'', ''f.parts'', ''part-1001'']"
proof -
  let ?data = "replicate 10000 (0::byte) @ [1]"
  let ?fs = "[([''d''], Dir), ([''d'', ''f''], File ?data)]"
  have h1: "lookup ?fs [''d'', ''f''] = Some (File ?data)"
    by (simp add: lookup_def)
  have h2: "?data \<noteq> []" by simp
  have h3: "(0::nat) < 1" by simp
  have h4: "is_dir ?fs (parent [''d'', ''f''])"
    by (simp add: is_dir_def lookup_def parent_def)
  have h5: "\<not> is_file ?fs (parts_path_of [''d'', ''f''])"
    by (simp add: is_file_def lookup_def parts_path_of_def parent_def name_def)
  have h6: "\<forall>k. k * 1 < length ?data \<longrightarrow>
      \<not> is_dir ?fs (parts_path_of [''d'', ''f''] @ [part_name k])"
    by (simp add: is_dir_def lookup_def parts_path_of_def parent_def name_def)
  from split_file_chunks [OF h1 h2 h3 h4 h5 h6] obtain fs' where
    run: "split_file ?fs [''d'', ''f''] 1 = Inr fs'" and
    chunks: "\<And>k. k < (length ?data + 1 - 1) div 1 \<Longrightarrow>
       lookup fs' (parts_path_of [''d'', ''f''] @ [part_name k]) =
       Some (File (take 1 (drop (k * 1) ?data)))"
    by blast
  have "take 1 (drop 1001 ?data) = [0]"
    by (simp add: take_Suc_conv_app_nth)
  then have c1: "lookup fs' [''d'', ''f.parts'', ''part-1001''] = Some (File [0])"
    using chunks [of 1001] by (simp add: parts_path_of_def parent_def name_def part_name_1001)
  have c2: "lookup fs' [''d'', ''f.parts'', ''part-10000''] = Some (File [1])"
    using chunks [of 10000] by (simp add: parts_path_of_def parent_def name_def part_name_10000)
  have less: "[''d'', ''f.parts'', ''part-10000''] < [''d'', ''f.parts'', ''part-1001'']"
    by simp
  from run c1 c2 part_name_10000 less show ?thesis
    by blast
qed

section \<open>Facts about the walk of pack\<close>






lemma endswith_append [simp]: "endswith (s @ suf) suf"
  by (simp add: endswith_def)

lemma path_str_snoc: "path_str (p @ [c]) = (if p = [] then [] else path_str p) @ CHR ''/'' # c"
  by (simp add: path_str_def)

lemma endswith_parts_path_of: "endswith (path_str (parts_path_of p)) ''.parts''"
proof -
  have "path_str (parts_path_of p) =
      ((if parent p = [] then [] else path_str (parent p)) @ CHR ''/'' # name p) @ ''.parts''"
    by (simp add: parts_path_of_def path_str_snoc)
  then show ?thesis
    by (simp only: endswith_append)
qed

lemma parts_path_of_inj:
  assumes "parts_path_of p = parts_path_of q" "p \<noteq> []" "q \<noteq> []"
  shows "p = q"
proof -
  from assms(1) have "butlast p = butlast q" "last p = last q"
    using assms(2, 3) by (simp_all add: parts_path_of_def parent_def name_def)
  with assms(2, 3) show ?thesis
    by (metis append_butlast_last_id)
qed










section \<open>Facts about relative paths\<close>








lemma split_slash_nonempty [simp]: "split_slash s \<noteq> []"
  by (induction s) (auto split: list.splits)


lemma components_slash [simp]: "components (CHR ''/'' # s) = components s"
  by (simp add: components_def)












section \<open>Facts about the rejoiner\<close>

lemma append_less_append_cancel:
  fixes g :: "'a::linorder list"
  shows "g @ xs < g @ ys \<longleftrightarrow> xs < ys"
  by (induction g) simp_all

lemma sort_distinct_set:
  assumes "distinct xs" "sorted ys" "distinct ys" "set xs = set ys"
  shows "sort xs = (ys :: 'a::linorder list)"
  using assms by (intro sorted_distinct_set_unique) simp_all

lemma distinct_singleton_set: "distinct xs \<Longrightarrow> set xs = {a} \<Longrightarrow> xs = [a]"
  by (cases xs) (auto simp: subset_singleton_iff)

lemma stem_parts: "nm \<noteq> [] \<Longrightarrow> stem (nm @ ''.parts'') = nm"
  by (simp add: stem_def Let_def)

lemma glob_parts_set:
  "distinct (map fst fs) \<Longrightarrow>
   set (glob_parts fs g) =
     {x. x \<noteq> [] \<and> parent x = g \<and> startswith (name x) ''part-'' \<and> lookup fs x \<noteq> None}"
  by (auto simp: glob_parts_def lookup_def map_of_eq_None_iff image_iff weak_map_of_SomeI)

lemma glob_parts_distinct: "distinct (map fst fs) \<Longrightarrow> distinct (glob_parts fs g)"
  by (simp add: glob_parts_def distinct_map_filter)

lemma parts_dirlist_set:
  "distinct (map fst fs) \<Longrightarrow>
   set (parts_dirlist fs d) =
     {x. strict_prefix d x \<and> endswith (name x) ''.parts'' \<and> lookup fs x = Some Dir}"
  by (auto simp: parts_dirlist_def lookup_def image_iff dest: map_of_SomeD)

lemma parts_dirlist_distinct: "distinct (map fst fs) \<Longrightarrow> distinct (parts_dirlist fs d)"
  by (simp add: parts_dirlist_def distinct_map_filter)

lemma read_all_files:
  "\<forall>x \<in> set xs. \<exists>c. lookup fs x = Some (File c) \<Longrightarrow>
   read_all fs xs = Inr (concat (map (\<lambda>x. node_bytes (the (lookup fs x))) xs))"
  by (induction xs) (auto simp: read_file_def)

lemma sort_set_eq:
  fixes xs ys :: "'a::linorder list"
  assumes "distinct xs" "distinct ys" "set xs = set ys"
  shows "sort xs = sort ys"
  using assms by (intro sort_distinct_set) simp_all

lemma path_split: "g \<noteq> [] \<Longrightarrow> g = parent g @ [name g]"
  by (simp add: parent_def name_def)

lemma parent_neq: "g \<noteq> [] \<Longrightarrow> parent g \<noteq> g"
proof
  assume g: "g \<noteq> []" and "parent g = g"
  then have "length (butlast g) = length g" by (simp add: parent_def)
  moreover have "length (butlast g) = length g - 1" by (rule length_butlast)
  moreover from g have "0 < length g" by simp
  ultimately show False by linarith
qed

lemma prefix_same_length: "prefix xs ys \<Longrightarrow> length xs = length ys \<Longrightarrow> xs = ys"
  by (auto simp: prefix_def)

lemma join_one_effect:
  assumes dist: "distinct (map fst fs)"
    and g: "g \<noteq> []" and nm: "name g = nm @ ''.parts''" "nm \<noteq> []"
    and dir: "lookup fs g = Some Dir"
    and par: "lookup fs (parent g) = Some Dir"
    and tgt: "lookup fs (parent g @ [nm]) \<noteq> Some Dir"
    and files: "\<And>x. x \<noteq> [] \<Longrightarrow> parent x = g \<Longrightarrow> startswith (name x) ''part-'' \<Longrightarrow>
        lookup fs x \<noteq> None \<Longrightarrow> \<exists>c. lookup fs x = Some (File c)"
  shows "\<exists>fs'. join_one fs g = Inr fs' \<and> distinct (map fst fs') \<and>
      (\<forall>q. lookup fs' q =
         (if prefix g q then None
          else if q = parent g @ [nm]
            then Some (File (concat (map (\<lambda>x. node_bytes (the (lookup fs x))) (sort (glob_parts fs g)))))
          else lookup fs q))"
proof -
  define t where "t = parent g @ [nm]"
  have g_eq: "g = parent g @ [nm @ ''.parts'']"
    using path_split [OF g] nm(1) by simp
  have tg: "t \<noteq> g"
  proof
    assume "t = g"
    with g_eq have "parent g @ [nm] = parent g @ [nm @ ''.parts'']"
      by (simp add: t_def)
    then show False by simp
  qed
  have not_under: "\<not> prefix g t"
  proof
    assume "prefix g t"
    moreover have "length g = length t"
      using g_eq by (metis length_append_singleton t_def)
    ultimately have "g = t"
      by (rule prefix_same_length)
    with tg show False by simp
  qed
  have child: "x \<noteq> t" if "parent x = g" "x \<noteq> []" for x
  proof
    assume "x = t"
    with that have "parent g = g" by (simp add: t_def)
    with parent_neq [OF g] show False by simp
  qed
  have "is_dir fs (parent t)"
    using par by (simp add: is_dir_def t_def)
  with tgt obtain fs1 where w1: "write_file fs t [] = Inr fs1"
    using write_file_succeeds [of fs t "[]"] by (auto simp: t_def)
  have l1: "lookup fs1 q = (if q = t then Some (File []) else lookup fs q)" for q
    by (rule lookup_write_file [OF w1])
  have d1: "distinct (map fst fs1)"
    by (rule distinct_write_file [OF w1 dist])
  have set_eq: "set (glob_parts fs1 g) = set (glob_parts fs g)"
    using child by (auto simp: glob_parts_set [OF d1] glob_parts_set [OF dist] l1)
  have sort_eq: "sort (glob_parts fs1 g) = sort (glob_parts fs g)"
    by (intro sort_set_eq glob_parts_distinct d1 dist set_eq)
  have in_glob: "x \<noteq> [] \<and> parent x = g \<and> (\<exists>c. lookup fs x = Some (File c))"
    if "x \<in> set (glob_parts fs g)" for x
    using that files [of x] by (auto simp: glob_parts_set [OF dist])
  have "\<forall>x \<in> set (sort (glob_parts fs1 g)). \<exists>c. lookup fs1 x = Some (File c)"
    using in_glob child by (auto simp: sort_eq l1)
  from read_all_files [OF this]
  have "read_all fs1 (sort (glob_parts fs1 g)) =
      Inr (concat (map (\<lambda>x. node_bytes (the (lookup fs1 x))) (sort (glob_parts fs g))))"
    by (simp add: sort_eq)
  moreover have "map (\<lambda>x. node_bytes (the (lookup fs1 x))) (sort (glob_parts fs g)) =
      map (\<lambda>x. node_bytes (the (lookup fs x))) (sort (glob_parts fs g))"
    using in_glob child by (intro map_cong refl) (auto simp: l1)
  ultimately have r: "read_all fs1 (sort (glob_parts fs1 g)) =
      Inr (concat (map (\<lambda>x. node_bytes (the (lookup fs x))) (sort (glob_parts fs g))))"
    by simp
  define dat where
    "dat = concat (map (\<lambda>x. node_bytes (the (lookup fs x))) (sort (glob_parts fs g)))"
  have "lookup fs1 t = Some (File [])"
    by (simp add: l1)
  then obtain fs2 where w2: "write_file fs1 t dat = Inr fs2"
    by (auto simp: write_file_def)
  have l2: "lookup fs2 q = (if q = t then Some (File dat) else lookup fs q)" for q
    by (simp add: lookup_write_file [OF w2] l1)
  have d2: "distinct (map fst fs2)"
    by (rule distinct_write_file [OF w2 d1])
  have "lookup fs2 g = Some Dir"
    using tg dir by (simp add: l2)
  then obtain fs' where rm: "rmtree fs2 g = Inr fs'"
    by (auto simp: rmtree_def)
  have l3: "lookup fs' q = (if prefix g q then None else if q = t then Some (File dat) else lookup fs q)"
    for q
    by (simp add: lookup_rmtree [OF rm g] l2)
  have "join_one fs g = Inr fs'"
    using w1 r w2 rm nm by (simp add: join_one_def Let_def stem_parts t_def dat_def)
  moreover have "distinct (map fst fs')"
    by (rule distinct_rmtree [OF rm d2])
  ultimately show ?thesis
    using l3 unfolding t_def dat_def by blast
qed

lemma sort_chunk_paths:
  assumes "n \<le> 10000" and "distinct xs"
    and "set xs = (\<lambda>k. g @ [part_name k]) ` {..<n}"
  shows "sort xs = map (\<lambda>k. g @ [part_name k]) [0..<n]"
proof (rule sort_distinct_set [OF assms(2)])
  have mono: "g @ [part_name i] < g @ [part_name j]" if "i < j" "j < n" for i j
    using that assms(1) part_name_less [of i j] by (simp add: append_less_append_cancel)
  show "sorted (map (\<lambda>k. g @ [part_name k]) [0..<n])"
    using mono by (auto simp: sorted_iff_nth_mono_less less_imp_le)
  show "distinct (map (\<lambda>k. g @ [part_name k]) [0..<n])"
    by (simp add: distinct_map inj_on_def)
  show "set xs = set (map (\<lambda>k. g @ [part_name k]) [0..<n])"
    using assms(3) by (simp add: lessThan_atLeast0)
qed

lemma distinct_split_file:
  assumes "split_file fs p c = Inr fs'" and "distinct (map fst fs)"
  shows "distinct (map fst fs')"
proof -
  have wc: "write_chunks fs1 pp rest c n = Inr fs2 \<Longrightarrow> distinct (map fst fs1) \<Longrightarrow>
      distinct (map fst fs2)" for fs1 pp rest n fs2
  proof (induction fs1 pp rest c n arbitrary: fs2 rule: write_chunks.induct)
    case (1 fs1 pp rest c n)
    show ?case
    proof (cases "take c rest = []")
      case True
      with "1.prems" show ?thesis
        by (subst (asm) write_chunks.simps) simp
    next
      case False
      from "1.prems"(1) False obtain fs3 where
        w: "write_file fs1 (pp @ [part_name n]) (take c rest) = Inr fs3" and
        r: "write_chunks fs3 pp (drop c rest) c (n + 1) = Inr fs2"
        by (subst (asm) write_chunks.simps) (auto simp: Let_def split: sum.splits)
      from "1.IH" [OF refl False w r distinct_write_file [OF w "1.prems"(2)]] show ?thesis .
    qed
  qed
  from assms(1) obtain fs1 data fs2 where
    m: "mkdir fs (parts_path_of p) = Inr fs1" and
    w: "write_chunks fs1 (parts_path_of p) data c 0 = Inr fs2" and
    t: "touch fs2 (parts_path_of p @ [''_PARTS'']) = Inr fs'"
    by (rule split_file_unfold)
  from distinct_touch [OF t wc [OF w distinct_mkdir [OF m assms(2)]]] show ?thesis .
qed

lemma split_file_effect:
  assumes s: "split_file fs p c = Inr fs'"
    and p: "lookup fs p = Some (File data)" and c: "0 < c"
  shows "lookup fs' (parts_path_of p) = Some Dir"
    and "\<And>k. k < (length data + c - 1) div c \<Longrightarrow>
          lookup fs' (parts_path_of p @ [part_name k]) = Some (File (take c (drop (k * c) data)))"
    and "lookup fs (parts_path_of p @ [''_PARTS'']) = None \<Longrightarrow>
          lookup fs' (parts_path_of p @ [''_PARTS'']) = Some (File [])"
    and "\<And>q. q \<noteq> parts_path_of p \<Longrightarrow>
          (\<And>k. k < (length data + c - 1) div c \<Longrightarrow> q \<noteq> parts_path_of p @ [part_name k]) \<Longrightarrow>
          q \<noteq> parts_path_of p @ [''_PARTS''] \<Longrightarrow> lookup fs' q = lookup fs q"
proof -
  define pp where "pp = parts_path_of p"
  define N where "N = (length data + c - 1) div c"
  note idx = chunk_index_iff [OF c, of _ "length data", folded N_def]
  from s obtain fs1 data' fs2 where
    m: "mkdir fs pp = Inr fs1" and
    r: "read_file fs1 p = Inr data'" and
    w: "write_chunks fs1 pp data' c 0 = Inr fs2" and
    t: "touch fs2 (pp @ [''_PARTS'']) = Inr fs'"
    unfolding pp_def by (rule split_file_unfold)
  from p have pne: "p \<noteq> []" by (auto simp: lookup_def)
  have l1: "lookup fs1 q = (if q = pp then Some Dir else lookup fs q)" for q
    by (rule lookup_mkdir [OF m])
  from r p parts_path_of_neq [OF pne] have data': "data' = data"
    by (simp add: read_file_Inr l1 pp_def)
  note w = w [unfolded data']
  have l2_chunk: "lookup fs2 (pp @ [part_name k]) = Some (File (take c (drop (k * c) data)))"
    if "k < N" for k
    using write_chunks_chunk [OF w _ c, of k] that by (simp add: idx)
  have l2_other: "lookup fs2 q = lookup fs1 q" if "\<And>k. k < N \<Longrightarrow> q \<noteq> pp @ [part_name k]" for q
    using that by (intro write_chunks_other [OF w]) (simp add: idx)
  have l3: "lookup fs' q =
      (if q = pp @ [''_PARTS''] \<and> lookup fs2 (pp @ [''_PARTS'']) = None then Some (File [])
       else lookup fs2 q)" for q
    by (rule lookup_touch [OF t])
  show "lookup fs' (parts_path_of p) = Some Dir"
    by (simp add: l3 l2_other l1 pp_def [symmetric])
  show "lookup fs' (parts_path_of p @ [part_name k]) = Some (File (take c (drop (k * c) data)))"
    if "k < (length data + c - 1) div c" for k
    using that l2_chunk [of k] by (simp add: l3 part_name_not_sentinel pp_def [symmetric] N_def)
  show "lookup fs' (parts_path_of p @ [''_PARTS'']) = Some (File [])"
    if "lookup fs (parts_path_of p @ [''_PARTS'']) = None"
  proof -
    have "lookup fs2 (pp @ [''_PARTS'']) = lookup fs1 (pp @ [''_PARTS''])"
      by (intro l2_other) (simp add: part_name_not_sentinel [symmetric])
    with that show ?thesis
      by (simp add: l3 l1 pp_def [symmetric])
  qed
  show "lookup fs' q = lookup fs q"
    if "q \<noteq> parts_path_of p"
      "\<And>k. k < (length data + c - 1) div c \<Longrightarrow> q \<noteq> parts_path_of p @ [part_name k]"
      "q \<noteq> parts_path_of p @ [''_PARTS'']" for q
  proof -
    have "lookup fs2 q = lookup fs1 q"
      using that(2) by (intro l2_other) (simp add: pp_def N_def)
    with that(1, 3) show ?thesis
      by (simp add: l3 l1 pp_def [symmetric])
  qed
qed

lemma name_parts_path_of [simp]: "name (parts_path_of p) = name p @ ''.parts''"
  by (simp add: parts_path_of_def)

lemma is_big_iff:
  "is_file fs p \<and> R < st_size fs p \<longleftrightarrow> (\<exists>data. lookup fs p = Some (File data) \<and> R < length data)"
  by (auto simp: is_file_def st_size_def split: option.splits node.splits)

lemma walk_effect:
  assumes "walk R ps t0 fs = Inr (t1, fs')" and "0 < R"
    and "distinct ps"
    and "\<forall>p \<in> set ps. p \<noteq> [] \<and> \<not> endswith (name p) ''.parts''
            \<and> \<not> endswith (path_str (parent p)) ''.parts''"
    and "\<forall>p \<in> set ps. lookup fs (parts_path_of p) = None
            \<and> (\<forall>c. lookup fs (parts_path_of p @ [c]) = None)"
  shows "(\<forall>q. lookup fs q \<noteq> None \<longrightarrow> lookup fs' q = lookup fs q)
    \<and> (\<forall>p data. p \<in> set ps \<and> lookup fs p = Some (File data) \<and> R < length data \<longrightarrow>
          lookup fs' (parts_path_of p) = Some Dir
          \<and> (\<forall>k < (length data + R - 1) div R.
                lookup fs' (parts_path_of p @ [part_name k]) = Some (File (take R (drop (k * R) data))))
          \<and> lookup fs' (parts_path_of p @ [''_PARTS'']) = Some (File []))
    \<and> (\<forall>q. lookup fs q = None \<and> lookup fs' q \<noteq> None \<longrightarrow>
          (\<exists>p data. p \<in> set ps \<and> lookup fs p = Some (File data) \<and> R < length data
             \<and> (q = parts_path_of p
                 \<or> (\<exists>k < (length data + R - 1) div R. q = parts_path_of p @ [part_name k])
                 \<or> q = parts_path_of p @ [''_PARTS''])))"
  using assms
proof (induction ps arbitrary: t0 fs)
  case Nil
  then show ?case by auto
next
  case (Cons p0 ps)
  have R: "0 < R" by (rule Cons.prems(2))
  from Cons.prems(3) have dist: "distinct ps" and p0_notin: "p0 \<notin> set ps" by simp_all
  from Cons.prems(4) have names: "\<forall>p \<in> set ps. p \<noteq> [] \<and> \<not> endswith (name p) ''.parts''
            \<and> \<not> endswith (path_str (parent p)) ''.parts''"
    and p0_name: "p0 \<noteq> []" "\<not> endswith (path_str (parent p0)) ''.parts''"
    by simp_all
  from Cons.prems(5) have clean: "\<forall>p \<in> set ps. lookup fs (parts_path_of p) = None
            \<and> (\<forall>c. lookup fs (parts_path_of p @ [c]) = None)"
    and p0_clean: "lookup fs (parts_path_of p0) = None" "\<And>c. lookup fs (parts_path_of p0 @ [c]) = None"
    by simp_all
  show ?case
  proof (cases "is_file fs p0 \<and> R < st_size fs p0")
    case False
    with Cons.prems(1) obtain t2 where w: "walk R ps t2 fs = Inr (t1, fs')"
      by (auto split: if_splits)
    from False have not_big: "\<not> (\<exists>data. lookup fs p0 = Some (File data) \<and> R < length data)"
      using is_big_iff [of fs p0 R] by blast
    note IH = Cons.IH [OF w R dist names clean]
    from IH have A: "\<And>q. lookup fs q \<noteq> None \<Longrightarrow> lookup fs' q = lookup fs q"
      by blast
    have B: "lookup fs' (parts_path_of p) = Some Dir
          \<and> (\<forall>k < (length data + R - 1) div R.
                lookup fs' (parts_path_of p @ [part_name k]) = Some (File (take R (drop (k * R) data))))
          \<and> lookup fs' (parts_path_of p @ [''_PARTS'']) = Some (File [])"
      if "p \<in> set (p0 # ps)" "lookup fs p = Some (File data)" "R < length data" for p data
    proof -
      from that not_big have "p \<in> set ps" by auto
      with IH that(2, 3) show ?thesis by blast
    qed
    have C: "\<exists>p data. p \<in> set (p0 # ps) \<and> lookup fs p = Some (File data) \<and> R < length data
             \<and> (q = parts_path_of p
                 \<or> (\<exists>k < (length data + R - 1) div R. q = parts_path_of p @ [part_name k])
                 \<or> q = parts_path_of p @ [''_PARTS''])"
      if "lookup fs q = None" "lookup fs' q \<noteq> None" for q
    proof -
      from IH that obtain p data where
        "p \<in> set ps" "lookup fs p = Some (File data)" "R < length data"
        "q = parts_path_of p
                 \<or> (\<exists>k < (length data + R - 1) div R. q = parts_path_of p @ [part_name k])
                 \<or> q = parts_path_of p @ [''_PARTS'']"
        by blast
      then show ?thesis
        by (intro exI [of _ p] exI [of _ data]) simp
    qed
    from A B C show ?thesis
      by blast
  next
    case True
    then obtain data0 where d0: "lookup fs p0 = Some (File data0)" "R < length data0"
      using is_big_iff [of fs p0 R] by blast
    from True Cons.prems(1) obtain fs1 where
      s: "split_file fs p0 R = Inr fs1" and
      w: "walk R ps (t0 + st_size fs p0) fs1 = Inr (t1, fs')"
      by (auto split: sum.splits)
    note E = split_file_effect [OF s d0(1) R]
    have far: "parent q \<noteq> parts_path_of p0" if "\<not> endswith (path_str (parent q)) ''.parts''" for q
      using that endswith_parts_path_of [of p0] by auto
    have keep: "lookup fs1 q = lookup fs q" if "lookup fs q \<noteq> None" for q
    proof (rule E(4))
      show "q \<noteq> parts_path_of p0" using that p0_clean(1) by auto
      show "q \<noteq> parts_path_of p0 @ [part_name k]" for k using that p0_clean(2) by auto
      show "q \<noteq> parts_path_of p0 @ [''_PARTS'']" using that p0_clean(2) by auto
    qed
    have tail_same: "lookup fs1 p = lookup fs p" if "p \<in> set ps" for p
    proof (rule E(4))
      from that names have n: "\<not> endswith (name p) ''.parts''"
        "\<not> endswith (path_str (parent p)) ''.parts''" by simp_all
      show "p \<noteq> parts_path_of p0"
      proof
        assume "p = parts_path_of p0"
        then have "name p = name p0 @ ''.parts''" by simp
        with n(1) show False by simp
      qed
      have "p \<noteq> parts_path_of p0 @ [c]" for c
      proof
        assume "p = parts_path_of p0 @ [c]"
        then have "parent p = parts_path_of p0" by simp
        with far [OF n(2)] show False by simp
      qed
      then show "p \<noteq> parts_path_of p0 @ [part_name k]"
        and "p \<noteq> parts_path_of p0 @ [''_PARTS'']" for k
        by simp_all
    qed
    have clean1: "\<forall>p \<in> set ps. lookup fs1 (parts_path_of p) = None
            \<and> (\<forall>c. lookup fs1 (parts_path_of p @ [c]) = None)"
    proof (intro ballI conjI allI)
      fix p assume p: "p \<in> set ps"
      with names have pn: "p \<noteq> []" "\<not> endswith (path_str (parent p)) ''.parts''" by simp_all
      from p p0_notin have "p \<noteq> p0" by auto
      then have pp: "parts_path_of p \<noteq> parts_path_of p0"
        using parts_path_of_inj [OF _ pn(1) p0_name(1)] by blast
      have pp_child: "parts_path_of p \<noteq> parts_path_of p0 @ [c]" for c
      proof
        assume "parts_path_of p = parts_path_of p0 @ [c]"
        then have "parent (parts_path_of p) = parts_path_of p0"
          by (metis parent_snoc)
        with far [OF pn(2)] show False by simp
      qed
      have "lookup fs1 (parts_path_of p) = lookup fs (parts_path_of p)"
        using pp pp_child by (intro E(4)) simp_all
      with clean p show "lookup fs1 (parts_path_of p) = None" by simp
      fix c
      have "parts_path_of p @ [c] \<noteq> parts_path_of p0"
      proof
        assume "parts_path_of p @ [c] = parts_path_of p0"
        then have "parent p0 = parts_path_of p"
          by (metis parent_parts_path_of parent_snoc)
        with p0_name(2) endswith_parts_path_of [of p] show False by simp
      qed
      then have "lookup fs1 (parts_path_of p @ [c]) = lookup fs (parts_path_of p @ [c])"
        using pp by (intro E(4)) simp_all
      with clean p show "lookup fs1 (parts_path_of p @ [c]) = None" by simp
    qed
    note IH = Cons.IH [OF w R dist names clean1]
    from IH have W1: "\<And>q. lookup fs1 q \<noteq> None \<Longrightarrow> lookup fs' q = lookup fs1 q"
      by blast
    from IH have W2: "\<And>p data. p \<in> set ps \<Longrightarrow> lookup fs1 p = Some (File data) \<Longrightarrow> R < length data \<Longrightarrow>
          lookup fs' (parts_path_of p) = Some Dir
          \<and> (\<forall>k < (length data + R - 1) div R.
                lookup fs' (parts_path_of p @ [part_name k]) = Some (File (take R (drop (k * R) data))))
          \<and> lookup fs' (parts_path_of p @ [''_PARTS'']) = Some (File [])"
      by blast
    from IH have W3: "\<And>q. lookup fs1 q = None \<Longrightarrow> lookup fs' q \<noteq> None \<Longrightarrow>
          (\<exists>p data. p \<in> set ps \<and> lookup fs1 p = Some (File data) \<and> R < length data
             \<and> (q = parts_path_of p
                 \<or> (\<exists>k < (length data + R - 1) div R. q = parts_path_of p @ [part_name k])
                 \<or> q = parts_path_of p @ [''_PARTS'']))"
      by blast
    have A: "lookup fs' q = lookup fs q" if "lookup fs q \<noteq> None" for q
      using keep [OF that] W1 [of q] that by simp
    have B0: "lookup fs' (parts_path_of p0) = Some Dir
          \<and> (\<forall>k < (length data0 + R - 1) div R.
                lookup fs' (parts_path_of p0 @ [part_name k]) = Some (File (take R (drop (k * R) data0))))
          \<and> lookup fs' (parts_path_of p0 @ [''_PARTS'']) = Some (File [])"
      using E(1) E(2) E(3) [OF p0_clean(2)] W1 by simp
    have B: "lookup fs' (parts_path_of p) = Some Dir
          \<and> (\<forall>k < (length data + R - 1) div R.
                lookup fs' (parts_path_of p @ [part_name k]) = Some (File (take R (drop (k * R) data))))
          \<and> lookup fs' (parts_path_of p @ [''_PARTS'']) = Some (File [])"
      if "p \<in> set (p0 # ps)" "lookup fs p = Some (File data)" "R < length data" for p data
    proof (cases "p = p0")
      case True
      with that(2) d0(1) have "data = data0" by simp
      with B0 True show ?thesis by simp
    next
      case False
      with that(1) have "p \<in> set ps" by simp
      from W2 [OF this _ that(3)] tail_same [OF this] that(2) show ?thesis by simp
    qed
    have C: "\<exists>p data. p \<in> set (p0 # ps) \<and> lookup fs p = Some (File data) \<and> R < length data
             \<and> (q = parts_path_of p
                 \<or> (\<exists>k < (length data + R - 1) div R. q = parts_path_of p @ [part_name k])
                 \<or> q = parts_path_of p @ [''_PARTS''])"
      if "lookup fs q = None" "lookup fs' q \<noteq> None" for q
    proof (cases "lookup fs1 q = None")
      case True
      from W3 [OF True that(2)] obtain p data where
        "p \<in> set ps" "lookup fs1 p = Some (File data)" "R < length data"
        "q = parts_path_of p
                 \<or> (\<exists>k < (length data + R - 1) div R. q = parts_path_of p @ [part_name k])
                 \<or> q = parts_path_of p @ [''_PARTS'']"
        by blast
      with tail_same [of p] show ?thesis
        by (intro exI [of _ p] exI [of _ data]) simp
    next
      case False
      with that(1) have "lookup fs1 q \<noteq> lookup fs q" by simp
      with E(4) [of q]
      have "q = parts_path_of p0
          \<or> (\<exists>k < (length data0 + R - 1) div R. q = parts_path_of p0 @ [part_name k])
          \<or> q = parts_path_of p0 @ [''_PARTS'']"
        by blast
      with d0 show ?thesis
        by (intro exI [of _ p0] exI [of _ data0]) simp
    qed
    from A B C show ?thesis
      by blast
  qed
qed

section \<open>Facts about unpacking\<close>

lemma lookup_snoc_new:
  "map_of fs p = None \<Longrightarrow> p \<noteq> [] \<Longrightarrow>
   lookup (fs @ [(p, n)]) x = (if x = p then Some n else lookup fs x)"
  by (auto simp: lookup_def map_add_def split: option.splits)

lemma makedirs_from_effect:
  assumes "distinct (map fst fs)"
    and "\<And>q c. q \<noteq> [] \<Longrightarrow> prefix q cs \<Longrightarrow> lookup fs (b @ q) \<noteq> Some (File c)"
  shows "\<exists>fs'. makedirs_from fs b cs = Inr fs' \<and> distinct (map fst fs') \<and>
          (\<forall>x. lookup fs' x =
             (if \<exists>q. q \<noteq> [] \<and> prefix q cs \<and> x = b @ q then Some Dir else lookup fs x))"
  using assms
proof (induction cs arbitrary: fs b)
  case Nil
  then show ?case by simp
next
  case (Cons c cs)
  have notfile: "lookup fs (b @ [c]) \<noteq> Some (File d)" for d
    using Cons.prems(2) [of "[c]" d] by simp
  have step: "\<exists>fs'. makedirs_from fs1 (b @ [c]) cs = Inr fs' \<and> distinct (map fst fs') \<and>
          (\<forall>x. lookup fs' x =
             (if \<exists>q. q \<noteq> [] \<and> prefix q (c # cs) \<and> x = b @ q then Some Dir else lookup fs x))"
    if d1: "distinct (map fst fs1)"
      and l1: "\<And>x. lookup fs1 x = (if x = b @ [c] then Some Dir else lookup fs x)" for fs1
  proof -
    have "lookup fs1 ((b @ [c]) @ q) \<noteq> Some (File d)" if "q \<noteq> []" "prefix q cs" for q d
      using Cons.prems(2) [of "c # q" d] that by (simp add: l1)
    from Cons.IH [OF d1 this] obtain fs' where
      m: "makedirs_from fs1 (b @ [c]) cs = Inr fs'" and d': "distinct (map fst fs')" and
      l': "\<And>x. lookup fs' x =
             (if \<exists>q. q \<noteq> [] \<and> prefix q cs \<and> x = (b @ [c]) @ q then Some Dir else lookup fs1 x)"
      by blast
    have iff: "(\<exists>q. q \<noteq> [] \<and> prefix q (c # cs) \<and> x = b @ q) \<longleftrightarrow>
        x = b @ [c] \<or> (\<exists>q. q \<noteq> [] \<and> prefix q cs \<and> x = (b @ [c]) @ q)" for x
    proof
      assume "\<exists>q. q \<noteq> [] \<and> prefix q (c # cs) \<and> x = b @ q"
      then obtain q where q: "q \<noteq> []" "prefix q (c # cs)" "x = b @ q" by blast
      then obtain q' where "q = c # q'" "prefix q' cs"
        by (cases q) auto
      with q show "x = b @ [c] \<or> (\<exists>q. q \<noteq> [] \<and> prefix q cs \<and> x = (b @ [c]) @ q)"
        by (cases "q' = []") auto
    next
      assume "x = b @ [c] \<or> (\<exists>q. q \<noteq> [] \<and> prefix q cs \<and> x = (b @ [c]) @ q)"
      then show "\<exists>q. q \<noteq> [] \<and> prefix q (c # cs) \<and> x = b @ q"
      proof
        assume "x = b @ [c]"
        then show ?thesis by (intro exI [of _ "[c]"]) simp
      next
        assume "\<exists>q. q \<noteq> [] \<and> prefix q cs \<and> x = (b @ [c]) @ q"
        then obtain q where "q \<noteq> []" "prefix q cs" "x = (b @ [c]) @ q" by blast
        then show ?thesis by (intro exI [of _ "c # q"]) simp
      qed
    qed
    have "lookup fs' x =
        (if \<exists>q. q \<noteq> [] \<and> prefix q (c # cs) \<and> x = b @ q then Some Dir else lookup fs x)" for x
    proof (cases "\<exists>q. q \<noteq> [] \<and> prefix q cs \<and> x = (b @ [c]) @ q")
      case True
      then have "lookup fs' x = Some Dir" by (simp only: l' if_True)
      moreover from True have "\<exists>q. q \<noteq> [] \<and> prefix q (c # cs) \<and> x = b @ q"
        by (simp only: iff simp_thms)
      ultimately show ?thesis by (simp only: if_True)
    next
      case False
      then have "lookup fs' x = lookup fs1 x" by (simp only: l' if_False)
      also have "\<dots> = (if x = b @ [c] then Some Dir else lookup fs x)" by (rule l1)
      finally show ?thesis
        using False by (simp only: iff simp_thms)
    qed
    with m d' show ?thesis
      by blast
  qed
  show ?case
  proof (cases "lookup fs (b @ [c])")
    case None
    then have mo: "map_of fs (b @ [c]) = None" by (simp add: lookup_def)
    have "distinct (map fst (fs @ [(b @ [c], Dir)]))"
      using Cons.prems(1) mo by (auto simp: map_of_eq_None_iff)
    from step [OF this lookup_snoc_new [OF mo]] None show ?thesis
      by simp
  next
    case (Some n)
    with notfile have "n = Dir" by (cases n) auto
    with Some step [OF Cons.prems(1)] show ?thesis
      by simp
  qed
qed

lemma makedirs_effect:
  assumes "distinct (map fst fs)"
    and "\<And>q c. q \<noteq> [] \<Longrightarrow> prefix q p \<Longrightarrow> lookup fs q \<noteq> Some (File c)"
  shows "\<exists>fs'. makedirs fs p = Inr fs' \<and> distinct (map fst fs') \<and>
          (\<forall>x. lookup fs' x = (if x \<noteq> [] \<and> prefix x p then Some Dir else lookup fs x))"
proof -
  from makedirs_from_effect [of fs p "[]"] assms obtain fs' where
    "makedirs_from fs [] p = Inr fs'" "distinct (map fst fs')"
    "\<And>x. lookup fs' x =
       (if \<exists>q. q \<noteq> [] \<and> prefix q p \<and> x = [] @ q then Some Dir else lookup fs x)"
    by auto
  then show ?thesis
    by (intro exI [of _ fs']) (auto simp: makedirs_def)
qed

lemma save_file_effect:
  assumes "distinct (map fst fs)" and "row_path r \<noteq> []"
    and "\<And>q c. q \<noteq> [] \<Longrightarrow> prefix q (dest @ butlast (row_path r)) \<Longrightarrow> lookup fs q \<noteq> Some (File c)"
    and "lookup fs (dest @ row_path r) \<noteq> Some Dir"
  shows "\<exists>fs'. SinaraArchive_save_file fs r dest = Inr fs' \<and> distinct (map fst fs') \<and>
          (\<forall>x. lookup fs' x =
             (if x = dest @ row_path r then Some (File (content r))
              else if x \<noteq> [] \<and> prefix x (dest @ butlast (row_path r)) then Some Dir
              else lookup fs x))"
proof -
  define rel where "rel = row_path r"
  from makedirs_effect [OF assms(1), of "dest @ butlast rel"] assms(3) obtain fs1 where
    m: "makedirs fs (dest @ butlast rel) = Inr fs1" and d1: "distinct (map fst fs1)" and
    l1: "\<And>x. lookup fs1 x =
        (if x \<noteq> [] \<and> prefix x (dest @ butlast rel) then Some Dir else lookup fs x)"
    unfolding rel_def by blast
  from assms(2) have rel: "rel = butlast rel @ [last rel]"
    by (simp add: rel_def)
  have longer: "\<not> prefix (dest @ rel) (dest @ butlast rel)"
  proof
    assume "prefix (dest @ rel) (dest @ butlast rel)"
    then have a: "length (dest @ rel) \<le> length (dest @ butlast rel)"
      by (rule prefix_length_le)
    have b: "length (dest @ butlast rel) = length dest + (length rel - 1)"
      by simp
    have c: "length (dest @ rel) = length dest + length rel"
      by simp
    have d: "0 < length rel"
      using assms(2) by (simp add: rel_def)
    from a b c d show False
      by linarith
  qed
  have par: "parent (dest @ rel) = dest @ butlast rel"
    by (simp add: parent_def butlast_append rel_def assms(2))
  have "lookup fs1 (dest @ rel) \<noteq> Some Dir"
    using assms(4) longer by (simp add: l1 rel_def)
  moreover have "is_dir fs1 (parent (dest @ rel))"
    by (simp add: par is_dir_def l1)
  ultimately obtain fs' where w: "write_file fs1 (dest @ rel) (content r) = Inr fs'"
    using write_file_succeeds by blast
  have "SinaraArchive_save_file fs r dest = Inr fs'"
    using m w assms(2) by (simp add: SinaraArchive_save_file_def Let_def rel_def)
  moreover have "distinct (map fst fs')"
    by (rule distinct_write_file [OF w d1])
  moreover have "lookup fs' x =
             (if x = dest @ rel then Some (File (content r))
              else if x \<noteq> [] \<and> prefix x (dest @ butlast rel) then Some Dir
              else lookup fs x)" for x
    by (simp add: lookup_write_file [OF w] l1)
  ultimately show ?thesis
    unfolding rel_def by blast
qed

section \<open>Facts about the order of more than 10000 chunks\<close>

lemma part_name_1000: "part_name 1000 = ''part-1000''"
  by (simp add: part_name_def fmt_04d_digits digit_char_def)

lemma part_name_below_10000:
  assumes "k \<le> 1000"
  shows "part_name k < part_name 10000"
proof -
  have "part_name k \<le> part_name 1000"
    using assms part_name_less [of k 1000] by (cases "k = 1000") auto
  also have "part_name 1000 < part_name 10000"
    by (simp add: part_name_1000 part_name_10000)
  finally show ?thesis .
qed

lemma part_name_above_10000:
  assumes "1001 \<le> k" "k < 10000"
  shows "part_name 10000 < part_name k"
proof -
  have "part_name 10000 < part_name 1001"
    by (simp add: part_name_1001 part_name_10000)
  also have "part_name 1001 \<le> part_name k"
    using assms part_name_less [of 1001 k] by (cases "k = 1001") auto
  finally show ?thesis .
qed

lemma sorted_chunk_order: "sorted (map part_name chunk_order)"
proof -
  have a: "sorted (map part_name [i..<j])" if "j \<le> 10000" for i j
    using that part_name_less
    by (auto simp: sorted_iff_nth_mono_less less_imp_le simp del: upt_rec_numeral)
  show ?thesis
    unfolding chunk_order_def
    using part_name_below_10000 part_name_above_10000 part_name_less
    by (auto simp: sorted_append a less_imp_le simp del: upt_rec_numeral intro: less_imp_le)
qed


lemma chunk_order_set: "set chunk_order = {..<10001}"
  unfolding chunk_order_def by (auto simp del: upt_rec_numeral)

lemma chunk_order_distinct: "distinct chunk_order"
  unfolding chunk_order_def by (auto simp del: upt_rec_numeral)

lemma append_le_append_cancel:
  fixes g :: "'a::linorder list"
  shows "g @ xs \<le> g @ ys \<longleftrightarrow> xs \<le> ys"
  by (simp add: le_less append_less_append_cancel)

lemma snoc_le_snoc:
  fixes a b :: "'a::linorder"
  shows "g @ [a] \<le> g @ [b] \<longleftrightarrow> a \<le> b"
  by (induction g) auto

lemma sort_chunk_paths_10001:
  assumes "distinct xs" and "set xs = (\<lambda>k. g @ [part_name k]) ` {..<10001}"
  shows "sort xs = map (\<lambda>k. g @ [part_name k]) chunk_order"
proof (rule sort_distinct_set [OF assms(1)])
  have "sorted (map part_name chunk_order)"
    by (rule sorted_chunk_order)
  then have "sorted_wrt (\<lambda>x y. part_name x \<le> part_name y) chunk_order"
    by (simp only: sorted_map)
  then have "sorted_wrt (\<lambda>x y. g @ [part_name x] \<le> g @ [part_name y]) chunk_order"
    by (rule sorted_wrt_mono_rel [rotated]) (simp only: snoc_le_snoc)
  then show "sorted (map (\<lambda>k. g @ [part_name k]) chunk_order)"
    by (simp only: sorted_map)
  show "distinct (map (\<lambda>k. g @ [part_name k]) chunk_order)"
    by (simp add: distinct_map inj_on_def chunk_order_distinct)
  show "set xs = set (map (\<lambda>k. g @ [part_name k]) chunk_order)"
    using assms(2) by (simp add: chunk_order_set)
qed

lemma map_const_replicate: "\<forall>k \<in> set ks. f k = c \<Longrightarrow> map f ks = replicate (length ks) c"
  by (induction ks) auto


text \<open>
  Claim C3 (rejoin ordering) at a file of 10001 bytes, the last of which is 1, split with the
  chunk size 1 and then rejoined: both calls return, and the rejoined file holds the byte of
  the chunk of index 10000 at position 1001, before the bytes of the chunks of index 1001 to
  9999. The chunks are read in the order of their names as strings, in which \<^verbatim>\<open>part-10000\<close>
  stands between \<^verbatim>\<open>part-1000\<close> and \<^verbatim>\<open>part-1001\<close>.
\<close>

theorem join_parts_index_10000:
  "\<exists>fs1 fs2.
     split_file [([''d''], Dir), ([''d'', ''f''], File (replicate 10000 0 @ [1]))] [''d'', ''f''] 1 =
       Inr fs1
     \<and> join_parts fs1 [''d''] = Inr fs2
     \<and> lookup fs2 [''d'', ''f''] = Some (File (replicate 1001 0 @ [1] @ replicate 8999 0))"
proof -
  define data where "data = replicate 10000 (0::byte) @ [1]"
  define p where "p = [''d'', ''f'']"
  define g where "g = [''d'', ''f.parts'']"
  define fs where "fs = [([''d''], Dir), (p, File data)]"
  have g_eq: "parts_path_of p = g"
    by (simp add: parts_path_of_def parent_def name_def p_def g_def)
  have len: "length data = 10001"
    by (simp add: data_def)
  have N: "(length data + 1 - 1) div 1 = 10001"
    by (simp add: len)
  have dist0: "distinct (map fst fs)"
    by (simp add: fs_def p_def)
  have l0: "lookup fs q =
      (if q = [] \<or> q = [''d''] then Some Dir else if q = p then Some (File data) else None)" for q
    by (simp add: lookup_def fs_def p_def)
  have lp: "lookup fs p = Some (File data)"
    by (simp add: l0 p_def)
  have "\<exists>fs1. split_file fs p 1 = Inr fs1 \<and> is_dir fs1 (parts_path_of p)"
  proof -
    have h2: "data \<noteq> []" by (simp add: data_def)
    have h3: "(0::nat) < 1" by simp
    have h4: "is_dir fs (parent p)"
      by (simp add: is_dir_def l0 parent_def p_def)
    have h5: "\<not> is_file fs (parts_path_of p)"
      by (simp add: is_file_def l0 g_eq) (simp add: g_def p_def)
    have h6: "\<forall>k. k * 1 < length data \<longrightarrow> \<not> is_dir fs (parts_path_of p @ [part_name k])"
      by (simp add: is_dir_def l0 g_eq) (simp add: g_def p_def)
    from split_file_chunks [OF lp h2 h3 h4 h5 h6] show ?thesis
      by blast
  qed
  then obtain fs1 where s: "split_file fs p 1 = Inr fs1"
    by blast
  have d1: "distinct (map fst fs1)"
    by (rule distinct_split_file [OF s dist0])
  note e = split_file_effect [OF s lp, unfolded g_eq N]
  have e1: "lookup fs1 g = Some Dir"
    by (rule e(1)) simp
  have e2: "lookup fs1 (g @ [part_name k]) = Some (File (take 1 (drop k data)))" if "k < 10001" for k
    using e(2) [of k] that by simp
  have e3: "lookup fs1 (g @ [''_PARTS'']) = Some (File [])"
    by (rule e(3)) (simp_all add: l0, simp add: g_def p_def)
  have e4: "lookup fs1 q = lookup fs q"
    if "q \<noteq> g" "\<And>k. k < 10001 \<Longrightarrow> q \<noteq> g @ [part_name k]" "q \<noteq> g @ [''_PARTS'']" for q
    using that by (intro e(4)) simp_all
  have cases: "q = g \<or> (\<exists>k<10001. q = g @ [part_name k]) \<or> q = g @ [''_PARTS'']
      \<or> lookup fs1 q = lookup fs q" for q
    using e4 [of q] by blast
  have old: "q = [] \<or> q = [''d''] \<or> q = p" if "lookup fs q \<noteq> None" for q
    using that by (auto simp: l0 split: if_splits)
  have gne: "g \<noteq> []" and pg: "parent g = [''d'']" and ng: "name g = ''f'' @ ''.parts''"
    by (simp_all add: g_def parent_def name_def)
  have par: "lookup fs1 (parent g) = Some Dir"
  proof -
    have "lookup fs1 [''d''] = lookup fs [''d'']"
      by (rule e4) (simp_all add: g_def)
    then show ?thesis by (simp add: pg l0)
  qed
  have lp1: "lookup fs1 p = Some (File data)"
  proof -
    have "lookup fs1 p = lookup fs p"
      by (rule e4) (simp_all add: g_def p_def)
    then show ?thesis by (simp add: lp)
  qed
  have tgt: "lookup fs1 (parent g @ [''f'']) \<noteq> Some Dir"
    using lp1 by (simp add: pg p_def)
  have not_child: "parent q \<noteq> g" if "lookup fs q \<noteq> None" for q
    using old [OF that] by (auto simp: parent_def g_def p_def)
  have files: "\<exists>c. lookup fs1 x = Some (File c)"
    if "x \<noteq> []" "parent x = g" "lookup fs1 x \<noteq> None" for x
  proof -
    from cases [of x] show ?thesis
    proof (elim disjE exE conjE)
      assume "x = g"
      with that(2) parent_neq [OF gne] show ?thesis by simp
    next
      fix k assume "k < 10001" "x = g @ [part_name k]"
      then show ?thesis by (simp add: e2)
    next
      assume "x = g @ [''_PARTS'']"
      then show ?thesis by (simp add: e3)
    next
      assume "lookup fs1 x = lookup fs x"
      with that(3) have "lookup fs x \<noteq> None" by simp
      from not_child [OF this] that(2) show ?thesis by simp
    qed
  qed
  have globset: "set (glob_parts fs1 g) = (\<lambda>k. g @ [part_name k]) ` {..<10001}"
  proof (rule set_eqI)
    fix x
    show "x \<in> set (glob_parts fs1 g) \<longleftrightarrow> x \<in> (\<lambda>k. g @ [part_name k]) ` {..<10001}"
    proof
      assume "x \<in> set (glob_parts fs1 g)"
      then have x: "x \<noteq> []" "parent x = g" "startswith (name x) ''part-''" "lookup fs1 x \<noteq> None"
        by (simp_all add: glob_parts_set [OF d1])
      from cases [of x] show "x \<in> (\<lambda>k. g @ [part_name k]) ` {..<10001}"
      proof (elim disjE exE conjE)
        assume "x = g"
        with x(2) parent_neq [OF gne] show ?thesis by simp
      next
        fix k assume "k < 10001" "x = g @ [part_name k]"
        then show ?thesis by simp
      next
        assume "x = g @ [''_PARTS'']"
        with x(3) show ?thesis by (simp add: startswith_def)
      next
        assume "lookup fs1 x = lookup fs x"
        with x(4) have "lookup fs x \<noteq> None" by simp
        from not_child [OF this] x(2) show ?thesis by simp
      qed
    next
      assume "x \<in> (\<lambda>k. g @ [part_name k]) ` {..<10001}"
      then obtain k where k: "k < 10001" "x = g @ [part_name k]" by auto
      then show "x \<in> set (glob_parts fs1 g)"
        by (simp add: glob_parts_set [OF d1] part_name_startswith e2)
    qed
  qed
  have sorted_glob: "sort (glob_parts fs1 g) = map (\<lambda>k. g @ [part_name k]) chunk_order"
    by (rule sort_chunk_paths_10001 [OF glob_parts_distinct [OF d1] globset])
  have dirs: "parts_dirlist fs1 [''d''] = [g]"
  proof (rule distinct_singleton_set [OF parts_dirlist_distinct [OF d1]])
    show "set (parts_dirlist fs1 [''d'']) = {g}"
    proof (rule set_eqI)
      fix x
      show "x \<in> set (parts_dirlist fs1 [''d'']) \<longleftrightarrow> x \<in> {g}"
      proof
        assume "x \<in> set (parts_dirlist fs1 [''d''])"
        then have x: "strict_prefix [''d''] x" "lookup fs1 x = Some Dir"
          by (simp_all add: parts_dirlist_set [OF d1])
        from cases [of x] show "x \<in> {g}"
        proof (elim disjE exE conjE)
          assume "x = g"
          then show ?thesis by simp
        next
          fix k assume "k < 10001" "x = g @ [part_name k]"
          with x(2) show ?thesis by (simp add: e2)
        next
          assume "x = g @ [''_PARTS'']"
          with x(2) show ?thesis by (simp add: e3)
        next
          assume "lookup fs1 x = lookup fs x"
          with x(2) have "x = [] \<or> x = [''d'']"
            by (auto simp: l0 split: if_splits)
          with x(1) show ?thesis by auto
        qed
      next
        assume "x \<in> {g}"
        then show "x \<in> set (parts_dirlist fs1 [''d''])"
          by (simp add: parts_dirlist_set [OF d1] e1) (simp add: g_def name_def endswith_def)
      qed
    qed
  qed
  have nf: "''f'' \<noteq> ([]::string)"
    by simp
  have files': "\<exists>c. lookup fs1 x = Some (File c)"
    if "x \<noteq> []" "parent x = g" "startswith (name x) ''part-''" "lookup fs1 x \<noteq> None" for x
    using that files by blast
  from join_one_effect [OF d1 gne ng nf e1 par tgt files'] obtain fs2 where
    j: "join_one fs1 g = Inr fs2" and
    l2: "\<forall>q. lookup fs2 q =
         (if prefix g q then None
          else if q = parent g @ [''f'']
            then Some (File (concat (map (\<lambda>x. node_bytes (the (lookup fs1 x))) (sort (glob_parts fs1 g)))))
          else lookup fs1 q)"
    by blast
  have jp: "join_parts fs1 [''d''] = Inr fs2"
    by (simp add: join_parts_def dirs j)
  have val: "take 1 (drop k data) = [data ! k]" if "k < 10001" for k
    using that Cons_nth_drop_Suc [of k data, symmetric] by (simp add: len)
  have "map (\<lambda>x. node_bytes (the (lookup fs1 x))) (map (\<lambda>k. g @ [part_name k]) chunk_order) =
      map (\<lambda>k. [data ! k]) chunk_order"
  proof -
    have "node_bytes (the (lookup fs1 (g @ [part_name k]))) = [data ! k]" if "k \<in> set chunk_order" for k
    proof -
      from that have k: "k < 10001" by (simp add: chunk_order_set)
      show ?thesis
        by (simp only: e2 [OF k] val [OF k] option.sel node_bytes.simps)
    qed
    then show ?thesis
      by (simp only: map_map o_def cong: map_cong)
  qed
  then have "concat (map (\<lambda>x. node_bytes (the (lookup fs1 x))) (sort (glob_parts fs1 g))) =
      map (\<lambda>k. data ! k) chunk_order"
    by (simp only: sorted_glob concat_map_singleton)
  also have "\<dots> = map (\<lambda>k. data ! k) [0..<1001] @ [data ! 10000] @ map (\<lambda>k. data ! k) [1001..<10000]"
    by (simp add: chunk_order_def del: upt_rec_numeral)
  also have "map (\<lambda>k. data ! k) [0..<1001] = replicate 1001 0"
    using map_const_replicate [of "[0..<1001]" "\<lambda>k. data ! k" 0]
    by (simp add: data_def nth_append del: upt_rec_numeral)
  also have "map (\<lambda>k. data ! k) [1001..<10000] = replicate 8999 0"
    using map_const_replicate [of "[1001..<10000]" "\<lambda>k. data ! k" 0]
    by (simp add: data_def nth_append del: upt_rec_numeral)
  also have "data ! 10000 = 1"
    by (simp add: data_def nth_append)
  finally have content:
    "concat (map (\<lambda>x. node_bytes (the (lookup fs1 x))) (sort (glob_parts fs1 g))) =
     replicate 1001 0 @ [1] @ replicate 8999 0" .
  have "lookup fs2 p = Some (File (replicate 1001 0 @ [1] @ replicate 8999 0))"
  proof -
    have "\<not> prefix g p" and "p = parent g @ [''f'']"
      by (simp_all add: pg) (simp_all add: p_def g_def)
    with l2 content show ?thesis
      by simp
  qed
  with s jp show ?thesis
    unfolding fs_def p_def data_def by blast
qed

lemma not_prefix_butlast: "xs \<noteq> [] \<Longrightarrow> \<not> prefix xs (butlast xs)"
proof
  assume "xs \<noteq> []" and "prefix xs (butlast xs)"
  then have "length xs \<le> length (butlast xs)" by (intro prefix_length_le)
  moreover have "length (butlast xs) = length xs - 1" by simp
  moreover from \<open>xs \<noteq> []\<close> have "0 < length xs" by simp
  ultimately show False by linarith
qed

lemma prefix_butlast_trans: "prefix xs (butlast ys) \<Longrightarrow> prefix xs ys"
  by (metis prefix_order.trans prefixeq_butlast)

lemma foreach_save_effect:
  assumes "distinct (map fst fs)"
    and "\<forall>r \<in> set rs. row_path r \<noteq> []"
    and "\<And>r q c. r \<in> set rs \<Longrightarrow> q \<noteq> [] \<Longrightarrow> prefix q (dest @ butlast (row_path r)) \<Longrightarrow>
          lookup fs q \<noteq> Some (File c)"
    and "\<And>r. r \<in> set rs \<Longrightarrow> lookup fs (dest @ row_path r) \<noteq> Some Dir"
    and "\<And>r r'. r \<in> set rs \<Longrightarrow> r' \<in> set rs \<Longrightarrow> prefix (row_path r) (row_path r') \<Longrightarrow>
          row_path r = row_path r' \<and> content r = content r'"
  shows "\<exists>fs'. foreach_save fs rs dest = Inr fs' \<and> distinct (map fst fs') \<and>
      (\<forall>r \<in> set rs. lookup fs' (dest @ row_path r) = Some (File (content r))) \<and>
      (\<forall>x. (\<forall>r \<in> set rs. x \<noteq> dest @ row_path r) \<longrightarrow>
         lookup fs' x =
           (if x \<noteq> [] \<and> (\<exists>r \<in> set rs. prefix x (dest @ butlast (row_path r))) then Some Dir
            else lookup fs x))"
  using assms
proof (induction rs arbitrary: fs)
  case Nil
  then show ?case by simp
next
  case (Cons r rs)
  have ne: "row_path r \<noteq> []" and nes: "\<forall>r \<in> set rs. row_path r \<noteq> []"
    using Cons.prems(2) by simp_all
  have pf: "row_path a = row_path b \<and> content a = content b"
    if "a \<in> set (r # rs)" "b \<in> set (r # rs)" "prefix (row_path a) (row_path b)" for a b
    using Cons.prems(5) [OF that] .
  have "\<exists>fs'. SinaraArchive_save_file fs r dest = Inr fs' \<and> distinct (map fst fs') \<and>
          (\<forall>x. lookup fs' x =
             (if x = dest @ row_path r then Some (File (content r))
              else if x \<noteq> [] \<and> prefix x (dest @ butlast (row_path r)) then Some Dir
              else lookup fs x))"
  proof (rule save_file_effect [OF Cons.prems(1) ne])
    show "lookup fs q \<noteq> Some (File c)"
      if "q \<noteq> []" "prefix q (dest @ butlast (row_path r))" for q c
      using Cons.prems(3) [of r q c] that by simp
    show "lookup fs (dest @ row_path r) \<noteq> Some Dir"
      using Cons.prems(4) [of r] by simp
  qed
  then obtain fs1 where
    s: "SinaraArchive_save_file fs r dest = Inr fs1" and d1: "distinct (map fst fs1)" and
    l1: "\<And>x. lookup fs1 x =
             (if x = dest @ row_path r then Some (File (content r))
              else if x \<noteq> [] \<and> prefix x (dest @ butlast (row_path r)) then Some Dir
              else lookup fs x)"
    by blast
  have a1: "lookup fs1 q \<noteq> Some (File c)"
    if "r' \<in> set rs" "q \<noteq> []" "prefix q (dest @ butlast (row_path r'))" for r' q c
  proof -
    have "q \<noteq> dest @ row_path r"
    proof
      assume "q = dest @ row_path r"
      with that(3) have "prefix (row_path r) (butlast (row_path r'))" by simp
      then have p: "prefix (row_path r) (row_path r')" by (rule prefix_butlast_trans)
      with pf [of r r'] that(1) have "row_path r = row_path r'" by simp
      with \<open>prefix (row_path r) (butlast (row_path r'))\<close> not_prefix_butlast [OF ne]
      show False by simp
    qed
    with Cons.prems(3) [of r' q c] that show ?thesis
      by (simp add: l1)
  qed
  have b1: "lookup fs1 (dest @ row_path r') \<noteq> Some Dir" if "r' \<in> set rs" for r'
  proof -
    from that nes have ne': "row_path r' \<noteq> []" by simp
    have "\<not> prefix (dest @ row_path r') (dest @ butlast (row_path r))"
    proof
      assume "prefix (dest @ row_path r') (dest @ butlast (row_path r))"
      then have q: "prefix (row_path r') (butlast (row_path r))" by simp
      then have "prefix (row_path r') (row_path r)" by (rule prefix_butlast_trans)
      with pf [of r' r] that have "row_path r' = row_path r" by simp
      with q not_prefix_butlast [OF ne] show False by simp
    qed
    with Cons.prems(4) [of r'] that show ?thesis
      by (simp add: l1)
  qed
  have pf1: "row_path a = row_path b \<and> content a = content b"
    if "a \<in> set rs" "b \<in> set rs" "prefix (row_path a) (row_path b)" for a b
    using pf [of a b] that by simp
  have "\<exists>fs'. foreach_save fs1 rs dest = Inr fs' \<and> distinct (map fst fs') \<and>
      (\<forall>r \<in> set rs. lookup fs' (dest @ row_path r) = Some (File (content r))) \<and>
      (\<forall>x. (\<forall>r \<in> set rs. x \<noteq> dest @ row_path r) \<longrightarrow>
         lookup fs' x =
           (if x \<noteq> [] \<and> (\<exists>r \<in> set rs. prefix x (dest @ butlast (row_path r))) then Some Dir
            else lookup fs1 x))"
  proof (rule Cons.IH [OF d1 nes])
    show "lookup fs1 q \<noteq> Some (File c)"
      if "r' \<in> set rs" "q \<noteq> []" "prefix q (dest @ butlast (row_path r'))" for r' q c
      using that by (rule a1)
    show "lookup fs1 (dest @ row_path r') \<noteq> Some Dir" if "r' \<in> set rs" for r'
      using that by (rule b1)
    show "row_path a = row_path b \<and> content a = content b"
      if "a \<in> set rs" "b \<in> set rs" "prefix (row_path a) (row_path b)" for a b
      using that by (rule pf1)
  qed
  then obtain fs' where
    f: "foreach_save fs1 rs dest = Inr fs'" and d': "distinct (map fst fs')" and
    rows: "\<And>r'. r' \<in> set rs \<Longrightarrow> lookup fs' (dest @ row_path r') = Some (File (content r'))" and
    rest: "\<And>x. (\<forall>r' \<in> set rs. x \<noteq> dest @ row_path r') \<Longrightarrow>
         lookup fs' x =
           (if x \<noteq> [] \<and> (\<exists>r' \<in> set rs. prefix x (dest @ butlast (row_path r'))) then Some Dir
            else lookup fs1 x)"
    by blast
  have run: "foreach_save fs (r # rs) dest = Inr fs'"
    using s f by simp
  have head: "lookup fs' (dest @ row_path r) = Some (File (content r))"
  proof (cases "\<exists>r' \<in> set rs. row_path r' = row_path r")
    case True
    then obtain r' where r': "r' \<in> set rs" "row_path r' = row_path r" by blast
    have "prefix (row_path r') (row_path r)"
      by (simp only: r'(2) prefix_order.order_refl)
    from pf [of r' r, OF _ _ this] r'(1) have "content r' = content r" by simp
    with rows [OF r'(1)] show ?thesis by (simp only: r'(2))
  next
    case False
    have nr: "\<forall>r' \<in> set rs. dest @ row_path r \<noteq> dest @ row_path r'"
    proof
      fix r' assume "r' \<in> set rs"
      with False have "row_path r' \<noteq> row_path r" by blast
      then show "dest @ row_path r \<noteq> dest @ row_path r'"
        by (simp only: same_append_eq not_sym)
    qed
    have np: "\<not> (dest @ row_path r \<noteq> [] \<and>
        (\<exists>r' \<in> set rs. prefix (dest @ row_path r) (dest @ butlast (row_path r'))))"
    proof
      assume "dest @ row_path r \<noteq> [] \<and>
        (\<exists>r' \<in> set rs. prefix (dest @ row_path r) (dest @ butlast (row_path r')))"
      then obtain r' where r': "r' \<in> set rs"
        and "prefix (dest @ row_path r) (dest @ butlast (row_path r'))"
        by blast
      then have "prefix (row_path r) (butlast (row_path r'))"
        by (simp only: same_prefix_prefix)
      then have "prefix (row_path r) (row_path r')" by (rule prefix_butlast_trans)
      from pf [of r r', OF _ _ this] r' have "row_path r = row_path r'" by simp
      with False r' show False by metis
    qed
    from rest [OF nr] np have "lookup fs' (dest @ row_path r) = lookup fs1 (dest @ row_path r)"
      by (simp only: if_False)
    also have "\<dots> = Some (File (content r))"
      by (subst l1) (rule if_P, rule refl)
    finally show ?thesis .
  qed
  have others: "lookup fs' x =
      (if x \<noteq> [] \<and> (\<exists>r' \<in> set (r # rs). prefix x (dest @ butlast (row_path r'))) then Some Dir
       else lookup fs x)"
    if "\<forall>r' \<in> set (r # rs). x \<noteq> dest @ row_path r'" for x
  proof -
    from that have nr: "\<forall>r' \<in> set rs. x \<noteq> dest @ row_path r'" and nx: "x \<noteq> dest @ row_path r"
      unfolding list.set(2) by blast+
    define A where "A \<longleftrightarrow> x \<noteq> [] \<and> (\<exists>r' \<in> set rs. prefix x (dest @ butlast (row_path r')))"
    define B where "B \<longleftrightarrow> x \<noteq> [] \<and> prefix x (dest @ butlast (row_path r))"
    have eq1: "lookup fs' x = (if A then Some Dir else lookup fs1 x)"
      using rest [OF nr] unfolding A_def .
    have eq2: "lookup fs1 x = (if B then Some Dir else lookup fs x)"
      unfolding B_def by (subst l1) (rule if_not_P [OF nx])
    have AB: "(x \<noteq> [] \<and> (\<exists>r' \<in> set (r # rs). prefix x (dest @ butlast (row_path r')))) \<longleftrightarrow> A \<or> B"
      unfolding A_def B_def list.set(2) by blast
    show ?thesis
      unfolding AB eq1 eq2 by (cases A; cases B; simp)
  qed
  have R1: "\<forall>r' \<in> set (r # rs). lookup fs' (dest @ row_path r') = Some (File (content r'))"
    unfolding list.set(2) using head rows by blast
  have R2: "\<forall>x. (\<forall>r' \<in> set (r # rs). x \<noteq> dest @ row_path r') \<longrightarrow>
         lookup fs' x =
           (if x \<noteq> [] \<and> (\<exists>r' \<in> set (r # rs). prefix x (dest @ butlast (row_path r'))) then Some Dir
            else lookup fs x)"
    using others by blast
  show ?case
    using run d' R1 R2 by (intro exI [of _ fs'] conjI)
qed

section \<open>Facts about the rejoining of several chunk groups\<close>

lemma joined_cong:
  assumes "distinct (map fst fs)" and "distinct (map fst fs1)"
    and same: "\<And>x. x \<noteq> [] \<Longrightarrow> parent x = g \<Longrightarrow> lookup fs1 x = lookup fs x"
  shows "concat (map (\<lambda>x. node_bytes (the (lookup fs1 x))) (sort (glob_parts fs1 g))) =
         concat (map (\<lambda>x. node_bytes (the (lookup fs x))) (sort (glob_parts fs g)))"
proof -
  have set_eq: "set (glob_parts fs1 g) = set (glob_parts fs g)"
    using same by (auto simp: glob_parts_set [OF assms(1)] glob_parts_set [OF assms(2)])
  have sort_eq: "sort (glob_parts fs1 g) = sort (glob_parts fs g)"
    by (intro sort_set_eq glob_parts_distinct assms(1, 2) set_eq)
  have "map (\<lambda>x. node_bytes (the (lookup fs1 x))) (sort (glob_parts fs g)) =
      map (\<lambda>x. node_bytes (the (lookup fs x))) (sort (glob_parts fs g))"
  proof (rule map_cong [OF refl])
    fix x assume "x \<in> set (sort (glob_parts fs g))"
    then have "x \<noteq> []" "parent x = g"
      by (simp_all add: glob_parts_set [OF assms(1)])
    then show "node_bytes (the (lookup fs1 x)) = node_bytes (the (lookup fs x))"
      by (simp add: same)
  qed
  then show ?thesis
    by (simp only: sort_eq)
qed

lemma prefix_snoc_cases: "prefix g (p @ [c]) \<Longrightarrow> g = p @ [c] \<or> prefix g p"
  by (auto simp: prefix_snoc)

lemma prefix_parent: "g \<noteq> [] \<Longrightarrow> prefix (parent g) g"
  by (simp add: parent_def prefixeq_butlast)

lemma length_parent: "g \<noteq> [] \<Longrightarrow> length g = Suc (length (parent g))"
  by (simp add: parent_def)

lemma join_all_effect:
  assumes "distinct (map fst fs)" and "distinct gs"
    and ok: "\<And>g. g \<in> set gs \<Longrightarrow>
          g \<noteq> [] \<and> (\<exists>nm. nm \<noteq> [] \<and> name g = nm @ ''.parts'') \<and> lookup fs g = Some Dir
          \<and> lookup fs (parent g) = Some Dir \<and> lookup fs (parent g @ [stem (name g)]) = None"
    and files: "\<And>g x. g \<in> set gs \<Longrightarrow> x \<noteq> [] \<Longrightarrow> parent x = g \<Longrightarrow> lookup fs x \<noteq> None \<Longrightarrow>
          \<exists>c. lookup fs x = Some (File c)"
    and nest: "\<And>g g'. g \<in> set gs \<Longrightarrow> g' \<in> set gs \<Longrightarrow> prefix g g' \<Longrightarrow> g = g'"
  shows "\<exists>fs'. join_all fs gs = Inr fs' \<and> distinct (map fst fs') \<and>
      (\<forall>g \<in> set gs. lookup fs' (parent g @ [stem (name g)]) =
          Some (File (concat (map (\<lambda>x. node_bytes (the (lookup fs x))) (sort (glob_parts fs g)))))) \<and>
      (\<forall>q. (\<forall>g \<in> set gs. q \<noteq> parent g @ [stem (name g)]) \<longrightarrow>
          lookup fs' q = (if \<exists>g \<in> set gs. prefix g q then None else lookup fs q))"
  using assms
proof (induction gs arbitrary: fs)
  case Nil
  then show ?case by simp
next
  case (Cons g gs)
  note dist = Cons.prems(1)
  have g_in: "g \<in> set (g # gs)" by simp
  have in_tl: "g' \<in> set (g # gs)" if "g' \<in> set gs" for g'
    using that by simp
  from Cons.prems(3) [OF g_in] obtain nm where
    gne: "g \<noteq> []" and nm: "nm \<noteq> []" "name g = nm @ ''.parts''" and
    dir: "lookup fs g = Some Dir" and par: "lookup fs (parent g) = Some Dir" and
    tnone0: "lookup fs (parent g @ [stem (name g)]) = None"
    by blast
  have st: "stem (name g) = nm"
    by (simp only: nm(2) stem_parts [OF nm(1)])
  define t where "t = parent g @ [nm]"
  have tnone: "lookup fs t = None"
    using tnone0 by (simp only: st t_def)
  define J where "J = concat (map (\<lambda>x. node_bytes (the (lookup fs x))) (sort (glob_parts fs g)))"
  have "\<exists>fs'. join_one fs g = Inr fs' \<and> distinct (map fst fs') \<and>
      (\<forall>q. lookup fs' q =
         (if prefix g q then None
          else if q = parent g @ [nm]
            then Some (File (concat (map (\<lambda>x. node_bytes (the (lookup fs x))) (sort (glob_parts fs g)))))
          else lookup fs q))"
  proof (rule join_one_effect [OF dist gne nm(2) nm(1) dir par])
    show "lookup fs (parent g @ [nm]) \<noteq> Some Dir"
      using tnone by (simp add: t_def)
    show "\<exists>c. lookup fs x = Some (File c)"
      if "x \<noteq> []" "parent x = g" "startswith (name x) ''part-''" "lookup fs x \<noteq> None" for x
      using Cons.prems(4) [OF g_in that(1, 2, 4)] .
  qed
  then obtain fs1 where
    j: "join_one fs g = Inr fs1" and d1: "distinct (map fst fs1)" and
    l1: "\<And>q. lookup fs1 q = (if prefix g q then None else if q = t then Some (File J) else lookup fs q)"
    unfolding t_def J_def by blast
  have gt: "g \<noteq> t"
    using dir tnone by auto
  have not_under_t: "\<not> prefix g t"
  proof
    assume "prefix g t"
    moreover have "length g = length t"
      by (simp add: t_def length_parent [OF gne])
    ultimately have "g = t" by (rule prefix_same_length)
    with gt show False by simp
  qed
  have l1t: "lookup fs1 t = Some (File J)"
    using not_under_t by (simp add: l1)
  have facts: "g' \<noteq> [] \<and> g' \<noteq> g \<and> \<not> prefix g g' \<and> \<not> prefix g' g \<and> g' \<noteq> t
      \<and> parent g' \<noteq> t \<and> \<not> prefix g (parent g')
      \<and> parent g' @ [stem (name g')] \<noteq> t
      \<and> \<not> prefix g' t
      \<and> lookup fs g' = Some Dir \<and> lookup fs (parent g') = Some Dir
      \<and> lookup fs (parent g' @ [stem (name g')]) = None
      \<and> (\<exists>nm. nm \<noteq> [] \<and> name g' = nm @ ''.parts'')"
    if g': "g' \<in> set gs" for g'
  proof -
    from Cons.prems(3) [OF in_tl [OF g']] obtain nm' where
      gne': "g' \<noteq> []" and nm': "nm' \<noteq> []" "name g' = nm' @ ''.parts''" and
      dir': "lookup fs g' = Some Dir" and par': "lookup fs (parent g') = Some Dir" and
      tnone': "lookup fs (parent g' @ [stem (name g')]) = None"
      by blast
    have st': "stem (name g') = nm'"
      by (simp only: nm'(2) stem_parts [OF nm'(1)])
    from Cons.prems(2) g' have neq: "g' \<noteq> g" by auto
    have n1: "\<not> prefix g g'"
      using Cons.prems(5) [OF g_in in_tl [OF g']] neq by blast
    have n2: "\<not> prefix g' g"
      using Cons.prems(5) [OF in_tl [OF g'] g_in] neq by blast
    have a: "g' \<noteq> t" using dir' tnone by auto
    have b: "parent g' \<noteq> t" using par' tnone by auto
    have c: "\<not> prefix g (parent g')"
    proof
      assume "prefix g (parent g')"
      with prefix_parent [OF gne'] have "prefix g g'"
        by (blast intro: prefix_order.trans)
      with n1 show False by simp
    qed
    have d: "parent g' @ [stem (name g')] \<noteq> t"
    proof
      assume "parent g' @ [stem (name g')] = t"
      then have "parent g' = parent g" "nm' = nm"
        by (simp_all add: t_def st')
      with path_split [OF gne'] path_split [OF gne] nm(2) nm'(2) have "g' = g"
        by simp
      with neq show False by simp
    qed
    have e: "\<not> prefix g' t"
    proof
      assume "prefix g' t"
      then have "g' = t \<or> prefix g' (parent g)"
        unfolding t_def by (rule prefix_snoc_cases)
      with a have "prefix g' (parent g)" by simp
      with prefix_parent [OF gne] have "prefix g' g"
        by (blast intro: prefix_order.trans)
      with n2 show False by simp
    qed
    from gne' neq n1 n2 a b c d e dir' par' tnone' nm' show ?thesis
      by blast
  qed
  have child_same: "lookup fs1 x = lookup fs x" if "g' \<in> set gs" "x \<noteq> []" "parent x = g'" for g' x
  proof -
    from that(2, 3) have x: "x = g' @ [name x]"
      using path_split [of x] by simp
    have "\<not> prefix g x"
    proof
      assume "prefix g x"
      with x have "prefix g (g' @ [name x])" by simp
      then have "g = g' @ [name x] \<or> prefix g g'"
        by (rule prefix_snoc_cases)
      then show False
      proof
        assume "g = g' @ [name x]"
        then have "prefix g' g" by simp
        with facts [OF that(1)] show False by simp
      next
        assume "prefix g g'"
        with facts [OF that(1)] show False by simp
      qed
    qed
    moreover have "x \<noteq> t"
    proof
      assume "x = t"
      with that(3) have "parent g = g'" by (simp add: t_def)
      with prefix_parent [OF gne] have "prefix g' g" by simp
      with facts [OF that(1)] show False by simp
    qed
    ultimately show ?thesis by (simp add: l1)
  qed
  have "\<exists>fs'. join_all fs1 gs = Inr fs' \<and> distinct (map fst fs') \<and>
      (\<forall>g \<in> set gs. lookup fs' (parent g @ [stem (name g)]) =
          Some (File (concat (map (\<lambda>x. node_bytes (the (lookup fs1 x))) (sort (glob_parts fs1 g)))))) \<and>
      (\<forall>q. (\<forall>g \<in> set gs. q \<noteq> parent g @ [stem (name g)]) \<longrightarrow>
          lookup fs' q = (if \<exists>g \<in> set gs. prefix g q then None else lookup fs1 q))"
  proof (rule Cons.IH [OF d1])
    show "distinct gs" using Cons.prems(2) by simp
    show "g' \<noteq> [] \<and> (\<exists>nm. nm \<noteq> [] \<and> name g' = nm @ ''.parts'') \<and> lookup fs1 g' = Some Dir
          \<and> lookup fs1 (parent g') = Some Dir \<and> lookup fs1 (parent g' @ [stem (name g')]) = None"
      if "g' \<in> set gs" for g'
      using facts [OF that] by (simp add: l1)
    show "\<exists>c. lookup fs1 x = Some (File c)"
      if "g' \<in> set gs" "x \<noteq> []" "parent x = g'" "lookup fs1 x \<noteq> None" for g' x
      using that Cons.prems(4) [OF in_tl [OF that(1)] that(2, 3)]
      by (simp add: child_same [OF that(1, 2, 3)])
    show "a = b" if "a \<in> set gs" "b \<in> set gs" "prefix a b" for a b
      using Cons.prems(5) [OF in_tl [OF that(1)] in_tl [OF that(2)] that(3)] .
  qed
  then obtain fs' where
    ja: "join_all fs1 gs = Inr fs'" and d': "distinct (map fst fs')" and
    T: "\<And>g'. g' \<in> set gs \<Longrightarrow> lookup fs' (parent g' @ [stem (name g')]) =
          Some (File (concat (map (\<lambda>x. node_bytes (the (lookup fs1 x))) (sort (glob_parts fs1 g')))))" and
    O: "\<And>q. (\<forall>g' \<in> set gs. q \<noteq> parent g' @ [stem (name g')]) \<Longrightarrow>
          lookup fs' q = (if \<exists>g' \<in> set gs. prefix g' q then None else lookup fs1 q)"
    by blast
  have run: "join_all fs (g # gs) = Inr fs'"
    using j ja by simp
  have T': "lookup fs' (parent g' @ [stem (name g')]) =
      Some (File (concat (map (\<lambda>x. node_bytes (the (lookup fs x))) (sort (glob_parts fs g')))))"
    if "g' \<in> set gs" for g'
    using T [OF that] joined_cong [OF dist d1 child_same [OF that]] by simp
  have Tg: "lookup fs' (parent g @ [stem (name g)]) = Some (File J)"
  proof -
    have "\<forall>g' \<in> set gs. t \<noteq> parent g' @ [stem (name g')]"
      using facts by blast
    from O [OF this] have "lookup fs' t = (if \<exists>g' \<in> set gs. prefix g' t then None else lookup fs1 t)" .
    moreover have "\<not> (\<exists>g' \<in> set gs. prefix g' t)"
      using facts by blast
    ultimately have "lookup fs' t = lookup fs1 t" by simp
    with l1t have "lookup fs' t = Some (File J)" by simp
    then show ?thesis by (simp only: st t_def)
  qed
  have R1: "\<forall>g' \<in> set (g # gs). lookup fs' (parent g' @ [stem (name g')]) =
      Some (File (concat (map (\<lambda>x. node_bytes (the (lookup fs x))) (sort (glob_parts fs g')))))"
    unfolding list.set(2) using Tg T' unfolding J_def by blast
  have R2: "lookup fs' q = (if \<exists>g' \<in> set (g # gs). prefix g' q then None else lookup fs q)"
    if "\<forall>g' \<in> set (g # gs). q \<noteq> parent g' @ [stem (name g')]" for q
  proof -
    from that have nq: "\<forall>g' \<in> set gs. q \<noteq> parent g' @ [stem (name g')]" and qt: "q \<noteq> t"
      unfolding list.set(2) by (blast, simp add: st t_def)
    define A where "A \<longleftrightarrow> (\<exists>g' \<in> set gs. prefix g' q)"
    have eq1: "lookup fs' q = (if A then None else lookup fs1 q)"
      using O [OF nq] unfolding A_def .
    have eq2: "lookup fs1 q = (if prefix g q then None else lookup fs q)"
      using qt by (simp add: l1)
    have AB: "(\<exists>g' \<in> set (g # gs). prefix g' q) \<longleftrightarrow> A \<or> prefix g q"
      unfolding A_def list.set(2) by blast
    show ?thesis
      unfolding AB eq1 eq2 by (cases A; simp)
  qed
  show ?case
    using run d' R1 R2 by (intro exI [of _ fs'] conjI allI impI) blast+
qed

section \<open>Facts about the partition count\<close>

lemma bit_length_bounds:
  "0 < n \<Longrightarrow> 2 ^ (bit_length n - 1) \<le> n \<and> n < 2 ^ bit_length n"
proof (induction n rule: bit_length.induct)
  case (1 n)
  show ?case
  proof (cases "n div 2 = 0")
    case True
    with "1.prems" have "n = 1" by presburger
    then show ?thesis
      by (simp add: bit_length.simps [of "Suc 0"] bit_length.simps [of 0])
  next
    case False
    with "1.IH" "1.prems" have ih: "2 ^ (bit_length (n div 2) - 1) \<le> n div 2"
      "n div 2 < 2 ^ bit_length (n div 2)"
      by auto
    from False have pos: "0 < bit_length (n div 2)"
      by (simp add: bit_length.simps [of "n div 2"])
    have eq: "bit_length n = Suc (bit_length (n div 2))"
      using "1.prems" by (simp add: bit_length.simps [of n])
    define m :: nat where "m = 2 ^ (bit_length (n div 2) - 1)"
    from pos have "(2::nat) ^ bit_length (n div 2) = 2 * m"
      unfolding m_def by (cases "bit_length (n div 2)") auto
    with ih have "m \<le> n div 2" "n div 2 < 2 * m" "2 ^ bit_length n = 4 * m"
      "2 ^ (bit_length n - 1) = 2 * m"
      unfolding eq m_def by simp_all
    then show ?thesis
      by presburger
  qed
qed

lemma quotient_exponent_lower:
  assumes "0 < a" "0 < b"
  shows "(0 \<le> quotient_exponent a b \<longrightarrow> b * 2 ^ nat (quotient_exponent a b) \<le> a) \<and>
         (quotient_exponent a b < 0 \<longrightarrow> b \<le> a * 2 ^ nat (- quotient_exponent a b))"
proof -
  define la lb where "la = bit_length a" and "lb = bit_length b"
  from bit_length_bounds [OF assms(1)] bit_length_bounds [OF assms(2)]
  have ba: "2 ^ (la - 1) \<le> a" and bb: "b < 2 ^ lb"
    by (simp_all add: la_def lb_def)
  have la_pos: "0 < la"
    using assms(1) by (simp add: la_def bit_length.simps [of a])
  define e0 where "e0 = int la - int lb"
  have qe_if: "quotient_exponent a b =
      (if (if 0 \<le> e0 then b * 2 ^ nat e0 \<le> a else b \<le> a * 2 ^ nat (- e0)) then e0 else e0 - 1)"
    unfolding quotient_exponent_def e0_def la_def lb_def Let_def ..
  show ?thesis
  proof (cases "if 0 \<le> e0 then b * 2 ^ nat e0 \<le> a else b \<le> a * 2 ^ nat (- e0)")
    case True
    then have qe: "quotient_exponent a b = e0"
      unfolding qe_if by (rule if_P)
    show ?thesis
    proof (cases "0 \<le> e0")
      case nonneg: True
      with True have "b * 2 ^ nat e0 \<le> a" by simp
      with nonneg show ?thesis by (simp add: qe)
    next
      case neg: False
      with True have "b \<le> a * 2 ^ nat (- e0)" by simp
      with neg show ?thesis by (simp add: qe)
    qed
  next
    case False
    then have qe: "quotient_exponent a b = e0 - 1"
      unfolding qe_if by (rule if_not_P)
    show ?thesis
    proof (cases "0 \<le> e0 - 1")
      case True
      then have "nat (e0 - 1) + lb = la - 1"
        unfolding e0_def by linarith
      then have pw: "(2::nat) ^ lb * 2 ^ nat (e0 - 1) = 2 ^ (la - 1)"
        by (metis power_add mult.commute)
      have "b * 2 ^ nat (e0 - 1) \<le> 2 ^ lb * 2 ^ nat (e0 - 1)"
        by (rule mult_le_mono1) (use bb in simp)
      also note pw
      also note ba
      finally have "b * 2 ^ nat (e0 - 1) \<le> a" .
      with True show ?thesis
        by (simp add: qe)
    next
      case False
      then have "la - 1 + nat (- (e0 - 1)) = lb"
        using la_pos unfolding e0_def by linarith
      then have pw: "(2::nat) ^ lb = 2 ^ (la - 1) * 2 ^ nat (- (e0 - 1))"
        by (metis power_add)
      have "b \<le> 2 ^ lb"
        using bb by simp
      also note pw
      also have "2 ^ (la - 1) * 2 ^ nat (- (e0 - 1)) \<le> a * 2 ^ nat (- (e0 - 1))"
        by (rule mult_le_mono1) (rule ba)
      finally have "b \<le> a * 2 ^ nat (- (e0 - 1))" .
      with False show ?thesis
        by (simp add: qe)
    qed
  qed
qed

lemma round_half_even_cases:
  "round_half_even num den = num div den \<or>
   (round_half_even num den = num div den + 1 \<and> den \<le> 2 * (num mod den))"
  by (auto simp: round_half_even_def Let_def)

lemma round_half_even_scaled:
  assumes "0 < b" "b < 2 ^ (K + 1)"
  shows "round_half_even (a * 2 ^ K) b div 2 ^ K = a div b"
proof -
  define P :: nat where "P = 2 ^ K"
  define n r where "n = a div b" and "r = a mod b"
  define s where "s = r * P"
  define q t where "q = s div b" and "t = s mod b"
  have P: "0 < P" "b < 2 * P"
    using assms by (simp_all add: P_def)
  have a: "a = n * b + r" and r: "r < b"
    using assms(1) by (simp_all add: n_def r_def)
  have A: "a * P = n * P * b + s"
    by (simp add: a s_def algebra_simps)
  have Adiv: "(a * P) div b = n * P + q"
    unfolding A q_def using assms(1) by simp
  have Amod: "(a * P) mod b = t"
    unfolding A t_def by simp
  have s: "s = b * q + t" and t: "t < b"
    using assms(1) by (simp_all add: q_def t_def)
  have "Suc r \<le> b" using r by simp
  then have "Suc r * P \<le> b * P" by (rule mult_le_mono1)
  then have sP: "s + P \<le> b * P" by (simp add: s_def)
  have q: "q < P"
  proof (rule ccontr)
    assume "\<not> q < P"
    then have "P \<le> q" by simp
    then have "b * P \<le> b * q" by (rule mult_le_mono2)
    with s sP P show False by linarith
  qed
  define m where "m = round_half_even (a * P) b"
  have m_cases: "m = n * P + q \<or> (m = n * P + q + 1 \<and> b \<le> 2 * t)"
    using round_half_even_cases [of "a * P" b] unfolding m_def Adiv Amod .
  then have "n * P \<le> m" by linarith
  then have lower: "P * n \<le> m" by (simp add: mult.commute)
  have upper: "m < P * Suc n"
  proof (cases "m = n * P + q")
    case True
    with q show ?thesis by (simp add: mult.commute)
  next
    case False
    with m_cases have m: "m = n * P + q + 1" and tie: "b \<le> 2 * t"
      by auto
    have "Suc q < P"
    proof (rule ccontr)
      assume "\<not> Suc q < P"
      with q have "P = Suc q" by simp
      then have "b * P = b * q + b" by simp
      with s sP tie P show False by linarith
    qed
    with m show ?thesis by (simp add: mult.commute)
  qed
  from lower upper have "m div P = n"
    by (rule div_nat_eqI)
  then show ?thesis
    by (simp add: m_def P_def n_def)
qed

lemma int_true_div_exact:
  assumes "a < 2 ^ 53" "0 < b"
  shows "int_true_div a b = Inr (int (a div b))"
proof (cases "a = 0")
  case True
  with assms show ?thesis by (simp add: int_true_div_def)
next
  case False
  then have a: "0 < a" by simp
  define e where "e = quotient_exponent a b"
  note low = quotient_exponent_lower [OF a assms(2), folded e_def]
  have e52: "e \<le> 52"
  proof (rule ccontr)
    assume "\<not> e \<le> 52"
    then have e: "53 \<le> e" by simp
    then have "(2::nat) ^ 53 \<le> 2 ^ nat e"
      by (intro power_increasing) auto
    also have "\<dots> \<le> b * 2 ^ nat e" using assms(2) by simp
    also have "\<dots> \<le> a" using low e by simp
    finally show False using assms(1) by simp
  qed
  define K where "K = nat (52 - e)"
  have bK: "b < 2 ^ (K + 1)"
  proof (cases "0 \<le> e")
    case True
    with e52 have "nat e + (K + 1) = 53" by (simp add: K_def)
    then have pw: "(2::nat) ^ 53 = 2 ^ (K + 1) * 2 ^ nat e"
      by (metis power_add mult.commute)
    from low True have "b * 2 ^ nat e \<le> a" by simp
    also note assms(1)
    also note pw
    finally have "b * 2 ^ nat e < 2 ^ (K + 1) * 2 ^ nat e" .
    then show ?thesis by (simp only: mult_less_cancel2)
  next
    case False
    then have "53 + nat (- e) = K + 1" by (simp add: K_def)
    then have pw: "(2::nat) ^ 53 * 2 ^ nat (- e) = 2 ^ (K + 1)"
      by (metis power_add)
    from low False have "b \<le> a * 2 ^ nat (- e)" by simp
    also have "a * 2 ^ nat (- e) < 2 ^ 53 * 2 ^ nat (- e)"
      by (rule mult_strict_right_mono) (use assms(1) in simp_all)
    also note pw
    finally show ?thesis .
  qed
  have "int_true_div a b = Inr (int (round_half_even (a * 2 ^ K) b div 2 ^ K))"
    using False assms(2) e52 by (simp add: int_true_div_def Let_def e_def [symmetric] K_def)
  then show ?thesis
    by (simp add: round_half_even_scaled [OF assms(2) bK])
qed

text \<open>
  Claim C5 (partition plan), amended: for a total size below \<open>2 ^ 53\<close> bytes, a positive
  block size and a positive number of cores, the partition count is the floor of
  \<open>total_size / block_size\<close> when that floor is greater than three times the number of cores,
  and three times the number of cores otherwise; for a total size of zero it is three times
  the number of cores, which is not zero.
\<close>

theorem partitions_plan:
  assumes "total_size < 2 ^ 53" and "0 < block_size" and "0 < cores"
  shows "partitions total_size block_size (Some cores) =
           Inr (if int (total_size div block_size) > 3 * cores
                then int (total_size div block_size) else 3 * cores)
         \<and> partitions 0 block_size (Some cores) = Inr (3 * cores)
         \<and> 3 * cores \<noteq> 0"
  using assms int_true_div_exact [OF assms(1, 2)] int_true_div_exact [of 0 block_size]
  by (simp add: partitions_def mult.commute)

theorem partitions_plan_witness:
  "(100::nat) < 2 ^ 53 \<and> (0::nat) < 10 \<and> (0::int) < 2
   \<and> partitions 100 10 (Some 2) = Inr 10
   \<and> partitions 0 10 (Some 2) = Inr 6"
  using partitions_plan [of 100 10 2] by simp

text \<open>
  The claim as stated fails for large totals: with the default block size of 10 MiB and the
  default five cores, a total of \<open>10 * 2 ^ 51 - 1\<close> bytes has the floor \<open>2 ^ 31 - 1\<close>, and the
  rounded quotient truncates to \<open>2 ^ 31\<close>.
\<close>

theorem partitions_plan_counterexample:
  "partitions 22517998136852479 10485760 (Some 5) = Inr 2147483648
   \<and> (22517998136852479::nat) div 10485760 = 2147483647"
  by (simp add: plan_eval Let_def)

section \<open>The rows written by pack\<close>

lemma load_binary_files_length:
  "b \<in> set (load_binary_files fs d) \<Longrightarrow> length_col b = length (content_col b)"
  by (auto simp: load_binary_files_def)

text \<open>
  Claim C7 (row-size invariant): every row that \<open>pack\<close> writes to the store has a length of
  at most the configured row size, and that length is the number of bytes of its content.
\<close>

theorem pack_rows_within_row_size:
  assumes "pack java_regex cfg server_cores fs tmp_entity_dir = Inr (fs', store)"
    and "r \<in> set store"
  shows "length_of_row r \<le> ROW_SIZE cfg \<and> length (content r) = length_of_row r"
proof -
  from assms(1) obtain total_size n where
    store: "store = map (to_row java_regex tmp_entity_dir)
       (filter (\<lambda>r. length_col r \<le> ROW_SIZE cfg) (load_binary_files fs' tmp_entity_dir))"
    by (auto simp: pack_def pack_files_from_tmp_to_spark_df_def split: sum.splits prod.splits)
  with assms(2) obtain b where b: "b \<in> set (load_binary_files fs' tmp_entity_dir)"
    "length_col b \<le> ROW_SIZE cfg" "r = to_row java_regex tmp_entity_dir b"
    by auto
  with load_binary_files_length [OF b(1)] show ?thesis
    by (simp add: to_row_def)
qed

theorem pack_rows_within_row_size_witness:
  "pack replace_literal \<lparr>BLOCK_SIZE = 10, ROW_SIZE = 2\<rparr> None
      [([''src''], Dir), ([''src'', ''big''], File [1, 2, 3, 4, 5]), ([''src'', ''a''], File [9])]
      [''src''] =
    Inr ([([''src''], Dir), ([''src'', ''big''], File [1, 2, 3, 4, 5]),
          ([''src'', ''a''], File [9]), ([''src'', ''big.parts''], Dir),
          ([''src'', ''big.parts'', ''part-0000''], File [1, 2]),
          ([''src'', ''big.parts'', ''part-0001''], File [3, 4]),
          ([''src'', ''big.parts'', ''part-0002''], File [5]),
          ([''src'', ''big.parts'', ''_PARTS''], File [])],
         [\<lparr>relPath = ''/a'', content = [9], length_of_row = 1\<rparr>,
          \<lparr>relPath = ''/big.parts/part-0000'', content = [1, 2], length_of_row = 2\<rparr>,
          \<lparr>relPath = ''/big.parts/part-0001'', content = [3, 4], length_of_row = 2\<rparr>,
          \<lparr>relPath = ''/big.parts/part-0002'', content = [5], length_of_row = 1\<rparr>])
   \<and> length_of_row \<lparr>relPath = ''/big.parts/part-0001'', content = [3, 4], length_of_row = 2\<rparr>
        \<le> ROW_SIZE \<lparr>BLOCK_SIZE = 10, ROW_SIZE = 2\<rparr>
   \<and> length (content \<lparr>relPath = ''/big.parts/part-0001'', content = [3, 4::byte], length_of_row = 2\<rparr>) =
       length_of_row \<lparr>relPath = ''/big.parts/part-0001'', content = [3, 4], length_of_row = 2\<rparr>"
proof -
  have run: "pack replace_literal \<lparr>BLOCK_SIZE = 10, ROW_SIZE = 2\<rparr> None
      [([''src''], Dir), ([''src'', ''big''], File [1, 2, 3, 4, 5]), ([''src'', ''a''], File [9])]
      [''src''] =
    Inr ([([''src''], Dir), ([''src'', ''big''], File [1, 2, 3, 4, 5]),
          ([''src'', ''a''], File [9]), ([''src'', ''big.parts''], Dir),
          ([''src'', ''big.parts'', ''part-0000''], File [1, 2]),
          ([''src'', ''big.parts'', ''part-0001''], File [3, 4]),
          ([''src'', ''big.parts'', ''part-0002''], File [5]),
          ([''src'', ''big.parts'', ''_PARTS''], File [])],
         [\<lparr>relPath = ''/a'', content = [9], length_of_row = 1\<rparr>,
          \<lparr>relPath = ''/big.parts/part-0000'', content = [1, 2], length_of_row = 2\<rparr>,
          \<lparr>relPath = ''/big.parts/part-0001'', content = [3, 4], length_of_row = 2\<rparr>,
          \<lparr>relPath = ''/big.parts/part-0002'', content = [5], length_of_row = 1\<rparr>])"
    by (simp add: fs_eval chunk_eval plan_eval pack_eval Let_def)
  show ?thesis
    using run pack_rows_within_row_size [OF run,
        of "\<lparr>relPath = ''/big.parts/part-0001'', content = [3, 4], length_of_row = 2\<rparr>"]
    by simp
qed

section \<open>Chunk groups without their sentinel\<close>

text \<open>
  Claim C4 (incomplete group safety) asks that a chunk group without its \<^verbatim>\<open>_PARTS\<close> file is
  never reassembled as if complete. \<^verbatim>\<open>_join_parts\<close> never looks at the sentinel: a group that
  holds \<^verbatim>\<open>part-0000\<close> and \<^verbatim>\<open>part-0001\<close> and no \<^verbatim>\<open>_PARTS\<close> is joined into the file named after
  the group, the group is removed, and no error is reported.
\<close>

theorem join_parts_without_sentinel:
  "join_parts
     [([''d''], Dir), ([''d'', ''x.parts''], Dir),
      ([''d'', ''x.parts'', ''part-0001''], File [3]),
      ([''d'', ''x.parts'', ''part-0000''], File [1, 2])] [''d''] =
   Inr [([''d''], Dir), ([''d'', ''x''], File [1, 2, 3])]"
  by (simp add: fs_eval join_eval Let_def)


end
